theory Spec2Isabelle
  imports Main "HOL-Library.Sublist" "HOL-Library.Char_ord" "HOL-Library.List_Lexorder"
begin

section \<open>The unwrap/expect/panic audit script \<^verbatim>\<open>scripts/fix_unwraps.py\<close>\<close>

text \<open>
  A shallow embedding of the class \<^verbatim>\<open>UnwrapFixer\<close>. Python strings are lists of
  characters; a \<^typ>\<open>char\<close> stands for a code point below 256. What the script prints
  (every \<^verbatim>\<open>print\<close> call goes to the standard output) is the list of printed strings,
  one per call; what it writes to \<^verbatim>\<open>apply_unwrap_fixes.sh\<close> is the list of written
  strings, one per \<^verbatim>\<open>f.write\<close> call, whose concatenation is the file.
\<close>

subsection \<open>String primitives of the Python library\<close>

text \<open>\<^verbatim>\<open>str.isspace\<close> on one character, for code points below 256.\<close>

definition isspace :: "char \<Rightarrow> bool" where
  "isspace c = (c \<in> set [CHR 0x09, CHR 0x0A, CHR 0x0B, CHR 0x0C, CHR 0x0D, CHR 0x1C,
                           CHR 0x1D, CHR 0x1E, CHR 0x1F, CHR 0x20, CHR 0x85, CHR 0xA0])"

text \<open>\<^verbatim>\<open>s.strip()\<close>: leading and trailing white space removed.\<close>

definition strip :: "string \<Rightarrow> string" where
  "strip s = rev (dropWhile isspace (rev (dropWhile isspace s)))"

text \<open>\<^verbatim>\<open>pat in s\<close>, which is also \<^verbatim>\<open>re.search\<close> for a pattern without operators.\<close>

fun contains_str :: "string \<Rightarrow> string \<Rightarrow> bool" where
  "contains_str pat [] = (pat = [])"
| "contains_str pat (c # cs) = (prefix pat (c # cs) \<or> contains_str pat cs)"

text \<open>
  \<^verbatim>\<open>s.replace(old, new)\<close>: every occurrence of \<open>old\<close>, found from left to right
  without overlap, becomes \<open>new\<close>; an empty \<open>old\<close> matches before every character
  and at the end.
\<close>

function replace_from :: "string \<Rightarrow> string \<Rightarrow> string \<Rightarrow> string" where
  "replace_from old new [] = []"
| "replace_from old new (c # cs) =
     (if old \<noteq> [] \<and> prefix old (c # cs)
      then new @ replace_from old new (drop (length old) (c # cs))
      else c # replace_from old new cs)"
  by pat_completeness auto
termination
  by (relation "measure (\<lambda>(old, new, s). length s)") (auto simp: neq_Nil_conv)

definition replace_str :: "string \<Rightarrow> string \<Rightarrow> string \<Rightarrow> string" where
  "replace_str old new s =
     (if old = [] then new @ concat (map (\<lambda>c. c # new) s) else replace_from old new s)"

text \<open>\<^verbatim>\<open>str(n)\<close> for a non-negative integer, as an f-string renders it.\<close>

definition digit_char :: "nat \<Rightarrow> char" where
  "digit_char d = ''0123456789'' ! d"

fun str_nat :: "nat \<Rightarrow> string" where
  "str_nat n = (if n < 10 then [digit_char n] else str_nat (n div 10) @ [digit_char (n mod 10)])"

declare str_nat.simps [simp del]

subsection \<open>The pattern catalogue (\<^verbatim>\<open>__init__\<close>)\<close>

definition dquote :: char where
  "dquote = CHR 0x22"

text \<open>
  A match, at the start of \<open>s\<close>, of a keyword followed by \<^verbatim>\<open>"([^"]*)"\)\<close>: the
  keyword, a double quote, the longest run without a double quote (group 1), a double
  quote and a closing parenthesis. The run cannot be shortened by backtracking, since
  the character after it has to be the double quote that ended it.
\<close>

definition match_quoted_at :: "string \<Rightarrow> string \<Rightarrow> string option" where
  "match_quoted_at kw s =
     (if prefix (kw @ [dquote]) s
      then (let rest = drop (length (kw @ [dquote])) s;
                msg = takeWhile (\<lambda>c. c \<noteq> dquote) rest;
                tail = dropWhile (\<lambda>c. c \<noteq> dquote) rest
            in if prefix [dquote, CHR '')''] tail then Some msg else None)
      else None)"

text \<open>\<^verbatim>\<open>re.search\<close> for such a pattern: group 1 of the leftmost match.\<close>

fun search_quoted :: "string \<Rightarrow> string \<Rightarrow> string option" where
  "search_quoted kw [] = match_quoted_at kw []"
| "search_quoted kw (c # cs) =
     (case match_quoted_at kw (c # cs) of
        Some m \<Rightarrow> Some m
      | None \<Rightarrow> search_quoted kw cs)"

text \<open>\<^verbatim>\<open>re.compile(r'\.unwrap\(\)')\<close>\<close>

definition unwrap_pattern :: "string \<Rightarrow> bool" where
  "unwrap_pattern s = contains_str ''.unwrap()'' s"

text \<open>\<^verbatim>\<open>re.compile(r'\.expect\("([^"]*)"\)')\<close>, with the message it captures.\<close>

definition expect_pattern :: "string \<Rightarrow> string option" where
  "expect_pattern s = search_quoted ''.expect('' s"

text \<open>\<^verbatim>\<open>re.compile(r'panic!\(')\<close>\<close>

definition panic_pattern :: "string \<Rightarrow> bool" where
  "panic_pattern s = contains_str ''panic!('' s"

text \<open>\<^verbatim>\<open>re.compile(r'#\[cfg\(test\)\]|#\[test\]|mod tests')\<close>\<close>

definition test_pattern :: "string \<Rightarrow> bool" where
  "test_pattern s =
     (contains_str ''#[cfg(test)]'' s \<or> contains_str ''#[test]'' s \<or> contains_str ''mod tests'' s)"

subsection \<open>File discovery (\<^verbatim>\<open>find_rust_files\<close>)\<close>

text \<open>
  One path met by the directory walk below the root: \<open>path\<close> is \<^verbatim>\<open>str(file)\<close>,
  \<open>name\<close> is \<^verbatim>\<open>file.name\<close>, \<open>parent\<close> is \<^verbatim>\<open>str(file.parent)\<close>, and \<open>content\<close>
  is what opening and reading it yields: the lines of \<^verbatim>\<open>readlines()\<close>, or the text
  of the exception raised.
\<close>

record entry =
  path :: string
  name :: string
  parent :: string
  content :: "string + string list"

text \<open>
  \<^verbatim>\<open>rglob("*.rs")\<close> keeps, in the order of the walk, the paths whose name ends in
  \<^verbatim>\<open>.rs\<close> (compared case-sensitively, as on a POSIX file system). It does not look at
  the kind of the path: a directory of such a name is kept as well, and opening it
  fails later.
\<close>

definition rglob_rs :: "entry list \<Rightarrow> entry list" where
  "rglob_rs walk = filter (\<lambda>e. suffix ''.rs'' (name e)) walk"

fun find_rust_files_loop :: "entry list \<Rightarrow> entry list \<Rightarrow> entry list" where
  "find_rust_files_loop [] rust_files = rust_files"
| "find_rust_files_loop (f # fs) rust_files =
     (if contains_str ''test'' (name f) \<or> contains_str ''tests'' (parent f)
      then find_rust_files_loop fs rust_files
      else find_rust_files_loop fs (rust_files @ [f]))"

definition find_rust_files :: "entry list \<Rightarrow> entry list" where
  "find_rust_files walk = find_rust_files_loop (rglob_rs walk) []"

subsection \<open>Line analysis (\<^verbatim>\<open>analyze_file\<close>)\<close>

datatype kind = Unwrap | Expect | Panic

text \<open>The dictionary \<^verbatim>\<open>issues\<close>, whose three keys are inserted in this order.\<close>

record issues =
  unwrap :: "(nat \<times> string) list"
  expect :: "(nat \<times> string) list"
  panic :: "(nat \<times> string) list"

definition no_issues :: issues where
  "no_issues = \<lparr>unwrap = [], expect = [], panic = []\<rparr>"

definition items :: "issues \<Rightarrow> (kind \<times> (nat \<times> string) list) list" where
  "items iss = [(Unwrap, unwrap iss), (Expect, expect iss), (Panic, panic iss)]"

text \<open>The loop's state: the flag \<^verbatim>\<open>in_test_block\<close> and the dictionary.\<close>

record scan =
  in_test_block :: bool
  found :: issues

text \<open>One iteration of the loop over \<^verbatim>\<open>enumerate(lines)\<close>, at index \<open>i\<close>.\<close>

definition analyze_line :: "nat \<Rightarrow> string \<Rightarrow> scan \<Rightarrow> scan" where
  "analyze_line i ln st =
     (let st1 = (if test_pattern ln then st\<lparr>in_test_block := True\<rparr> else st)
      in if in_test_block st1 \<and> \<not> prefix ''//'' (strip ln) then st1
         else
           (let iss = found st1;
                iss1 = (if unwrap_pattern ln
                        then iss\<lparr>unwrap := unwrap iss @ [(i + 1, strip ln)]\<rparr> else iss);
                iss2 = (if expect_pattern ln \<noteq> None
                        then iss1\<lparr>expect := expect iss1 @ [(i + 1, strip ln)]\<rparr> else iss1);
                iss3 = (if panic_pattern ln
                        then iss2\<lparr>panic := panic iss2 @ [(i + 1, strip ln)]\<rparr> else iss2)
            in st1\<lparr>found := iss3\<rparr>))"

fun analyze_loop :: "nat \<Rightarrow> string list \<Rightarrow> scan \<Rightarrow> scan" where
  "analyze_loop i [] st = st"
| "analyze_loop i (ln # lns) st = analyze_loop (i + 1) lns (analyze_line i ln st)"

definition analyze_lines :: "string list \<Rightarrow> scan" where
  "analyze_lines lns = analyze_loop 0 lns \<lparr>in_test_block = False, found = no_issues\<rparr>"

text \<open>
  \<^verbatim>\<open>analyze_file\<close> returns the dictionary; the second component is what it prints.
  An exception can only come from opening or reading the file, before the loop starts.
\<close>

definition analyze_file :: "entry \<Rightarrow> issues \<times> string list" where
  "analyze_file f =
     (case content f of
        Inl e \<Rightarrow> (no_issues, [''Error reading '' @ path f @ '': '' @ e])
      | Inr lns \<Rightarrow> (found (analyze_lines lns), []))"

text \<open>\<^verbatim>\<open>issues[k]\<close>, and the signature that fills it.\<close>

definition lookup :: "issues \<Rightarrow> kind \<Rightarrow> (nat \<times> string) list" where
  "lookup iss k = (case k of Unwrap \<Rightarrow> unwrap iss | Expect \<Rightarrow> expect iss | Panic \<Rightarrow> panic iss)"

definition signature :: "kind \<Rightarrow> string \<Rightarrow> bool" where
  "signature k ln =
     (case k of
        Unwrap \<Rightarrow> unwrap_pattern ln
      | Expect \<Rightarrow> expect_pattern ln \<noteq> None
      | Panic \<Rightarrow> panic_pattern ln)"

subsection \<open>Suggestions\<close>

definition suggest_unwrap_fix :: "string \<Rightarrow> string" where
  "suggest_unwrap_fix ln =
     (if contains_str ''lock().unwrap()'' ln
      then replace_str ''.unwrap()'' ''.map_err(|e| StorageError::LockError(e.to_string()))?'' ln
      else if contains_str ''parse().unwrap()'' ln
      then replace_str ''.unwrap()''
             ''.map_err(|e| ValidationError::ParseError(e.to_string()))?'' ln
      else if contains_str ''to_string().unwrap()'' ln
      then replace_str ''.unwrap()'' ''.map_err(|_| ValidationError::ConversionError)?'' ln
      else replace_str ''.unwrap()'' ''?'' ln)"

text \<open>The two f-strings of \<^verbatim>\<open>suggest_expect_fix\<close>.\<close>

definition expect_call :: "string \<Rightarrow> string" where
  "expect_call error_msg = ''.expect('' @ [dquote] @ error_msg @ [dquote] @ '')''"

definition ok_or_else_call :: "string \<Rightarrow> string" where
  "ok_or_else_call error_msg =
     ''.ok_or_else(|| ValidationError::InvalidInput('' @ [dquote] @ error_msg @ [dquote]
       @ ''.to_string()))?''"

definition suggest_expect_fix :: "string \<Rightarrow> string" where
  "suggest_expect_fix ln =
     (case expect_pattern ln of
        Some error_msg \<Rightarrow> replace_str (expect_call error_msg) (ok_or_else_call error_msg) ln
      | None \<Rightarrow> ln)"

definition internal_error_return :: "string \<Rightarrow> string" where
  "internal_error_return msg =
     ''return Err(SupernovaError::InternalError('' @ [dquote] @ msg @ [dquote]
       @ ''.to_string()));''"

definition suggest_panic_fix :: "string \<Rightarrow> string" where
  "suggest_panic_fix ln =
     (if contains_str ''panic!('' ln
      then (case search_quoted ''panic!('' ln of
              Some msg \<Rightarrow> internal_error_return msg
            | None \<Rightarrow> internal_error_return ''Unexpected error'')
      else ln)"

text \<open>The dictionary appended to \<^verbatim>\<open>suggestions\<close>.\<close>

record finding =
  i_file :: string
  i_line :: nat
  i_type :: kind
  i_original :: string
  i_suggestion :: string

definition suggest :: "kind \<Rightarrow> string \<Rightarrow> string" where
  "suggest issue_type line_content =
     (case issue_type of
        Unwrap \<Rightarrow> suggest_unwrap_fix line_content
      | Expect \<Rightarrow> suggest_expect_fix line_content
      | Panic \<Rightarrow> suggest_panic_fix line_content)"

definition make_finding :: "string \<Rightarrow> kind \<Rightarrow> nat \<times> string \<Rightarrow> finding" where
  "make_finding file_path issue_type occ =
     \<lparr>i_file = file_path, i_line = fst occ, i_type = issue_type, i_original = snd occ,
      i_suggestion = suggest issue_type (snd occ)\<rparr>"

definition generate_fix_suggestions :: "string \<Rightarrow> issues \<Rightarrow> finding list" where
  "generate_fix_suggestions file_path iss =
     concat (map (\<lambda>(issue_type, occurrences). map (make_finding file_path issue_type) occurrences)
                 (items iss))"

subsection \<open>The report (\<^verbatim>\<open>generate_report\<close>)\<close>

text \<open>The variables the loop over \<^verbatim>\<open>rust_files\<close> updates, and what has been printed.\<close>

record audit =
  all_issues :: "finding list"
  total_unwraps :: nat
  total_expects :: nat
  total_panics :: nat
  printed :: "string list"

text \<open>\<^verbatim>\<open>any(issues.values())\<close>: some list of the dictionary is not empty.\<close>

definition any_issues :: "issues \<Rightarrow> bool" where
  "any_issues iss = (unwrap iss \<noteq> [] \<or> expect iss \<noteq> [] \<or> panic iss \<noteq> [])"

definition report_file :: "entry \<Rightarrow> audit \<Rightarrow> audit" where
  "report_file file_path a =
     (let (iss, out) = analyze_file file_path;
          a1 = a\<lparr>printed := printed a @ out\<rparr>
      in if any_issues iss
         then a1\<lparr>all_issues := all_issues a1 @ generate_fix_suggestions (path file_path) iss,
                  total_unwraps := total_unwraps a1 + length (unwrap iss),
                  total_expects := total_expects a1 + length (expect iss),
                  total_panics := total_panics a1 + length (panic iss)\<rparr>
         else a1)"

fun report_loop :: "entry list \<Rightarrow> audit \<Rightarrow> audit" where
  "report_loop [] a = a"
| "report_loop (file_path # rust_files) a = report_loop rust_files (report_file file_path a)"

definition run_audit :: "entry list \<Rightarrow> audit" where
  "run_audit rust_files =
     report_loop rust_files
       \<lparr>all_issues = [], total_unwraps = 0, total_expects = 0, total_panics = 0,
        printed = [''Analyzing '' @ str_nat (length rust_files) @ '' Rust files...'']\<rparr>"

definition summary_lines :: "audit \<Rightarrow> string list" where
  "summary_lines a =
     [CHR 0x0A # replicate 80 (CHR ''=''),
      ''UNWRAP/PANIC AUDIT REPORT'',
      replicate 80 (CHR ''=''),
      ''Total unwrap() calls: '' @ str_nat (total_unwraps a),
      ''Total expect() calls: '' @ str_nat (total_expects a),
      ''Total panic! calls: '' @ str_nat (total_panics a),
      ''TOTAL ISSUES: '' @ str_nat (total_unwraps a + total_expects a + total_panics a),
      replicate 80 (CHR ''='')]"

text \<open>
  The dictionary \<^verbatim>\<open>issues_by_file\<close>, as the list of its items in insertion order.
  \<open>group_insert\<close> is one iteration of the grouping loop: the key is added with an
  empty list when it is missing, then the issue is appended to the key's list.
\<close>

type_synonym by_file = "(string \<times> finding list) list"

fun group_insert :: "finding \<Rightarrow> by_file \<Rightarrow> by_file" where
  "group_insert issue [] = [(i_file issue, [issue])]"
| "group_insert issue ((f, file_issues) # d) =
     (if f = i_file issue then (f, file_issues @ [issue]) # d
      else (f, file_issues) # group_insert issue d)"

fun group_loop :: "finding list \<Rightarrow> by_file \<Rightarrow> by_file" where
  "group_loop [] d = d"
| "group_loop (issue # rest) d = group_loop rest (group_insert issue d)"

definition group_by_file :: "finding list \<Rightarrow> by_file" where
  "group_by_file issues = group_loop issues []"

text \<open>
  \<^verbatim>\<open>sorted(issues_by_file.items())\<close>: the keys of a dictionary differ, so the order of
  the pairs is the order of their keys, Python's order of strings (by code point, a
  proper prefix first).
\<close>

definition sorted_items :: "by_file \<Rightarrow> by_file" where
  "sorted_items d = sort_key fst d"

definition type_name :: "kind \<Rightarrow> string" where
  "type_name k = (case k of Unwrap \<Rightarrow> ''unwrap'' | Expect \<Rightarrow> ''expect'' | Panic \<Rightarrow> ''panic'')"

definition detail_issue :: "finding \<Rightarrow> string list" where
  "detail_issue issue =
     [''  Line '' @ str_nat (i_line issue) @ '' ('' @ type_name (i_type issue) @ ''):'',
      ''    Original: '' @ i_original issue,
      ''    Fix:      '' @ i_suggestion issue]"

definition detail_file :: "string \<times> finding list \<Rightarrow> string list" where
  "detail_file item = (CHR 0x0A # fst item @ '':'') # concat (map detail_issue (snd item))"

definition detail_lines :: "by_file \<Rightarrow> string list" where
  "detail_lines d =
     [CHR 0x0A # ''DETAILED FIXES NEEDED:'', replicate 80 (CHR ''-'')]
     @ concat (map detail_file (sorted_items d))"

subsection \<open>The companion script (\<^verbatim>\<open>generate_fix_script\<close>)\<close>

definition sed_command :: "string \<Rightarrow> string" where
  "sed_command file =
     ''# sed -i '' @ [CHR 0x27, CHR 0x27] @ '' '' @ [CHR 0x27] @ ''s/'' @ [CHR 0x5C]
       @ ''.unwrap()/'' @ [CHR 0x5C] @ ''?/g'' @ [CHR 0x27] @ '' '' @ file @ [CHR 0x0A]"

definition script_issue :: "string \<Rightarrow> finding \<Rightarrow> string list" where
  "script_issue file issue =
     (case i_type issue of
        Unwrap \<Rightarrow>
          [''# Line '' @ str_nat (i_line issue) @ '': Replace unwrap()'' @ [CHR 0x0A],
           sed_command file]
      | Expect \<Rightarrow>
          [''# Line '' @ str_nat (i_line issue) @ '': Replace expect()'' @ [CHR 0x0A],
           ''# Manual fix needed'' @ [CHR 0x0A]]
      | Panic \<Rightarrow>
          [''# Line '' @ str_nat (i_line issue) @ '': Replace panic!'' @ [CHR 0x0A],
           ''# Manual fix needed'' @ [CHR 0x0A]])"

definition script_file :: "string \<times> finding list \<Rightarrow> string list" where
  "script_file item =
     (CHR 0x0A # ''# Fixes for '' @ fst item @ [CHR 0x0A])
     # concat (map (script_issue (fst item)) (snd item))"

definition script_header :: "string list" where
  "script_header =
     [''#!/bin/bash'' @ [CHR 0x0A],
      ''# Script to apply unwrap fixes'' @ [CHR 0x0A],
      ''# Review each change before running!'' @ [CHR 0x0A, CHR 0x0A]]"

text \<open>
  The strings written to the script, in order, and the strings printed afterwards.
  Opening and writing the script is taken to succeed.
\<close>

definition generate_fix_script :: "by_file \<Rightarrow> string list \<times> string list" where
  "generate_fix_script issues_by_file =
     (script_header @ concat (map script_file issues_by_file),
      [CHR 0x0A # ''Fix script generated: apply_unwrap_fixes.sh'',
       ''Review and edit the script before running!''])"

text \<open>The lines of a text, as a shell reads the script: the pieces between line feeds.\<close>

primrec lines_of :: "string \<Rightarrow> string list" where
  "lines_of [] = [] # []"
| "lines_of (c # cs) =
     (if c = CHR 0x0A then [] # lines_of cs
      else (case lines_of cs of [] \<Rightarrow> [c] # [] | l # ls \<Rightarrow> (c # l) # ls))"

text \<open>
  A line that runs nothing: empty, or a comment. A written string is a disabled record
  when it ends in a line feed and every line before that line feed is such a line.
\<close>

definition commented :: "string \<Rightarrow> bool" where
  "commented l = (l = [] \<or> hd l = CHR ''#'')"

definition disabled_record :: "string \<Rightarrow> bool" where
  "disabled_record w =
     (\<exists>body. w = body @ [CHR 0x0A] \<and> (\<forall>l \<in> set (lines_of body). commented l))"

text \<open>
  A run of \<^verbatim>\<open>generate_report\<close> over the paths the directory walk meets: everything
  written to the standard output, everything written to the standard error stream, and
  everything written to the script. Every message of the script is a \<^verbatim>\<open>print\<close> call
  without a \<^verbatim>\<open>file\<close> argument, which writes to the standard output: nothing is
  written to the standard error stream.
\<close>

record report =
  stdout :: "string list"
  stderr :: "string list"
  script :: "string list"

definition generate_report :: "entry list \<Rightarrow> report" where
  "generate_report walk =
     (let a = run_audit (find_rust_files walk);
          issues_by_file = group_by_file (all_issues a);
          (written, out) = generate_fix_script issues_by_file
      in \<lparr>stdout = printed a @ summary_lines a @ detail_lines issues_by_file @ out,
          stderr = [],
          script = written\<rparr>)"

subsection \<open>Example inputs\<close>

definition ex_walk :: "entry list" where
  "ex_walk =
     [\<lparr>path = ''src/lib.rs'', name = ''lib.rs'', parent = ''src'', content = Inr []\<rparr>,
      \<lparr>path = ''src/contest.rs'', name = ''contest.rs'', parent = ''src'', content = Inr []\<rparr>,
      \<lparr>path = ''src/Test.rs'', name = ''Test.rs'', parent = ''src'', content = Inr []\<rparr>,
      \<lparr>path = ''tests/a.rs'', name = ''a.rs'', parent = ''tests'', content = Inr []\<rparr>,
      \<lparr>path = ''src/notes.txt'', name = ''notes.txt'', parent = ''src'', content = Inr []\<rparr>]"

definition ex_lines :: "string list" where
  "ex_lines =
     map (\<lambda>l. l @ [CHR 0x0A])
       [''a.unwrap().unwrap(); panic!(1)'', ''#[cfg(test)]'', ''b.unwrap()'', ''  // c.unwrap()'']"

text \<open>
  A tree with two analysed files met in the order \<^verbatim>\<open>src/b.rs\<close>, \<^verbatim>\<open>src/a.rs\<close>,
  an unreadable file between them and a file under \<^verbatim>\<open>tests\<close>; and a file whose
  name holds a line feed.
\<close>

definition ex_b :: entry where
  "ex_b = \<lparr>path = ''src/b.rs'', name = ''b.rs'', parent = ''src'',
           content = Inr [''    panic!(1);'' @ [CHR 0x0A], ''    let n = s.parse().unwrap();'' @ [CHR 0x0A]]\<rparr>"

definition ex_bad :: entry where
  "ex_bad = \<lparr>path = ''src/bad.rs'', name = ''bad.rs'', parent = ''src'',
             content =
               Inl (''[Errno 13] Permission denied: '' @ [CHR 0x27] @ ''src/bad.rs'' @ [CHR 0x27])\<rparr>"

definition ex_a :: entry where
  "ex_a = \<lparr>path = ''src/a.rs'', name = ''a.rs'', parent = ''src'',
           content = Inr [''let v = x.expect('' @ [dquote] @ ''must exist'' @ [dquote] @ '');'' @ [CHR 0x0A]]\<rparr>"

definition ex_t :: entry where
  "ex_t = \<lparr>path = ''tests/t.rs'', name = ''t.rs'', parent = ''tests'',
           content = Inr [''x.unwrap()'' @ [CHR 0x0A]]\<rparr>"

definition ex_tree :: "entry list" where
  "ex_tree = [ex_b, ex_bad, ex_t, ex_a]"

definition ex_nl :: entry where
  "ex_nl = \<lparr>path = ''src/x'' @ [CHR 0x0A] @ ''y.rs'', name = ''x'' @ [CHR 0x0A] @ ''y.rs'', parent = ''src'',
           content = Inr [''a.unwrap()'' @ [CHR 0x0A]]\<rparr>"

section \<open>Properties\<close>

subsection \<open>Substrings\<close>

lemma contains_str_iff: "contains_str pat s \<longleftrightarrow> (\<exists>pre post. s = pre @ pat @ post)"
proof (induction s)
  case Nil
  then show ?case by auto
next
  case (Cons c cs)
  show ?case
  proof
    assume "contains_str pat (c # cs)"
    then consider "prefix pat (c # cs)" | "contains_str pat cs" by auto
    then show "\<exists>pre post. c # cs = pre @ pat @ post"
    proof cases
      case 1
      then obtain post where "c # cs = pat @ post" by (auto simp: prefix_def)
      then have "c # cs = [] @ pat @ post" by simp
      then show ?thesis by blast
    next
      case 2
      with Cons.IH obtain pre post where "cs = pre @ pat @ post" by blast
      then have "c # cs = (c # pre) @ pat @ post" by simp
      then show ?thesis by blast
    qed
  next
    assume "\<exists>pre post. c # cs = pre @ pat @ post"
    then obtain pre post where eq: "c # cs = pre @ pat @ post" by blast
    show "contains_str pat (c # cs)"
    proof (cases pre)
      case Nil
      with eq have "prefix pat (c # cs)" by (simp add: prefix_def)
      then show ?thesis by simp
    next
      case (Cons a pre')
      with eq have "cs = pre' @ pat @ post" by simp
      with Cons.IH have "contains_str pat cs" by blast
      then show ?thesis by simp
    qed
  qed
qed

subsection \<open>File discovery\<close>

lemma find_rust_files_loop_filter:
  "find_rust_files_loop fs acc =
     acc @ filter (\<lambda>f. \<not> (contains_str ''test'' (name f) \<or> contains_str ''tests'' (parent f))) fs"
  by (induction fs arbitrary: acc) simp_all

text \<open>
  Claim C7. A path is discovered exactly when the walk meets it, its name ends in
  \<^verbatim>\<open>.rs\<close>, its name has no substring \<^verbatim>\<open>test\<close> and its parent path has no
  substring \<^verbatim>\<open>tests\<close>. The substrings are compared character by character, so the
  exclusion is case-sensitive.
\<close>

theorem find_rust_files_exact:
  "f \<in> set (find_rust_files walk) \<longleftrightarrow>
     f \<in> set walk \<and> (\<exists>stem. name f = stem @ ''.rs'')
     \<and> \<not> (\<exists>pre post. name f = pre @ ''test'' @ post)
     \<and> \<not> (\<exists>pre post. parent f = pre @ ''tests'' @ post)"
  unfolding find_rust_files_def rglob_rs_def find_rust_files_loop_filter contains_str_iff
  by (auto simp: suffix_def)

text \<open>
  In the example walk \<^verbatim>\<open>src/Test.rs\<close> is discovered (the capital letter does not
  match), and so it has the three properties.
\<close>

theorem find_rust_files_exact_witness:
  "\<lparr>path = ''src/Test.rs'', name = ''Test.rs'', parent = ''src'', content = Inr []\<rparr> \<in> set ex_walk
   \<and> (\<exists>stem. name \<lparr>path = ''src/Test.rs'', name = ''Test.rs'', parent = ''src'',
                     content = Inr []\<rparr> = stem @ ''.rs'')
   \<and> \<not> (\<exists>pre post. name \<lparr>path = ''src/Test.rs'', name = ''Test.rs'', parent = ''src'',
                           content = Inr []\<rparr> = pre @ ''test'' @ post)
   \<and> \<not> (\<exists>pre post. parent \<lparr>path = ''src/Test.rs'', name = ''Test.rs'', parent = ''src'',
                             content = Inr []\<rparr> = pre @ ''tests'' @ post)"
  by (rule iffD1 [OF find_rust_files_exact])
     (simp add: ex_walk_def find_rust_files_def rglob_rs_def suffix_def)

subsection \<open>Line analysis\<close>

lemma analyze_line_flag:
  "in_test_block (analyze_line i ln st) = (in_test_block st \<or> test_pattern ln)"
  by (simp add: analyze_line_def Let_def)

lemma analyze_loop_flag:
  "in_test_block (analyze_loop i lns st) = (in_test_block st \<or> (\<exists>l \<in> set lns. test_pattern l))"
  by (induction lns arbitrary: i st) (auto simp: analyze_line_flag)

lemma analyze_loop_append:
  "analyze_loop i (xs @ ys) st = analyze_loop (i + length xs) ys (analyze_loop i xs st)"
  by (induction xs arbitrary: i st) simp_all

lemma analyze_line_lookup:
  "lookup (found (analyze_line i ln st)) k =
     lookup (found st) k @
       (if \<not> ((in_test_block st \<or> test_pattern ln) \<and> \<not> prefix ''//'' (strip ln)) \<and> signature k ln
        then [(i + 1, strip ln)] else [])"
  by (cases k) (simp_all add: analyze_line_def Let_def lookup_def signature_def)

lemma analyze_loop_lookup:
  "\<exists>ext. lookup (found (analyze_loop i lns st)) k = lookup (found st) k @ ext
         \<and> (\<forall>occ \<in> set ext. i < fst occ \<and> fst occ \<le> i + length lns)
         \<and> sorted_wrt (<) (map fst ext)"
proof (induction lns arbitrary: i st)
  case Nil
  show ?case by simp
next
  case (Cons ln lns)
  obtain ext where ext:
    "lookup (found (analyze_loop (i + 1) lns (analyze_line i ln st))) k
       = lookup (found (analyze_line i ln st)) k @ ext"
    "\<forall>occ \<in> set ext. i + 1 < fst occ \<and> fst occ \<le> i + 1 + length lns"
    "sorted_wrt (<) (map fst ext)"
    using Cons.IH [of "i + 1" "analyze_line i ln st"] by blast
  define one where "one =
    (if \<not> ((in_test_block st \<or> test_pattern ln) \<and> \<not> prefix ''//'' (strip ln)) \<and> signature k ln
     then [(i + 1, strip ln)] else [])"
  have a: "lookup (found (analyze_loop i (ln # lns) st)) k = lookup (found st) k @ (one @ ext)"
    using ext(1) by (simp add: analyze_line_lookup one_def)
  have b: "\<forall>occ \<in> set (one @ ext). i < fst occ \<and> fst occ \<le> i + length (ln # lns)"
    using ext(2) by (auto simp: one_def)
  have c: "sorted_wrt (<) (map fst (one @ ext))"
    using ext(2,3) by (auto simp: one_def sorted_wrt_append)
  from a b c show ?case by blast
qed

lemma analyze_loop_at:
  assumes "j < length lns"
  shows "filter (\<lambda>occ. fst occ = i + j + 1) (lookup (found (analyze_loop i lns st)) k) =
           filter (\<lambda>occ. fst occ = i + j + 1) (lookup (found st) k) @
           (if \<not> ((in_test_block (analyze_loop i (take j lns) st) \<or> test_pattern (lns ! j))
                  \<and> \<not> prefix ''//'' (strip (lns ! j))) \<and> signature k (lns ! j)
            then [(i + j + 1, strip (lns ! j))] else [])"
proof -
  let ?st1 = "analyze_loop i (take j lns) st"
  let ?st2 = "analyze_line (i + j) (lns ! j) ?st1"
  have split: "lns = take j lns @ (lns ! j) # drop (Suc j) lns"
    using assms by (simp add: id_take_nth_drop)
  have "analyze_loop i lns st = analyze_loop i (take j lns @ (lns ! j) # drop (Suc j) lns) st"
    using split by simp
  also have "\<dots> = analyze_loop (i + j + 1) (drop (Suc j) lns) ?st2"
    using assms by (simp add: analyze_loop_append)
  finally have run: "analyze_loop i lns st = analyze_loop (i + j + 1) (drop (Suc j) lns) ?st2" .
  obtain e1 where e1: "lookup (found ?st1) k = lookup (found st) k @ e1"
    "\<forall>occ \<in> set e1. i < fst occ \<and> fst occ \<le> i + length (take j lns)"
    using analyze_loop_lookup [of i "take j lns" st k] by blast
  obtain e3 where e3:
    "lookup (found (analyze_loop (i + j + 1) (drop (Suc j) lns) ?st2)) k = lookup (found ?st2) k @ e3"
    "\<forall>occ \<in> set e3. i + j + 1 < fst occ"
    using analyze_loop_lookup [of "i + j + 1" "drop (Suc j) lns" ?st2 k] by blast
  have f1: "filter (\<lambda>occ. fst occ = i + j + 1) e1 = []"
    using e1(2) assms by (auto simp: filter_empty_conv)
  have f3: "filter (\<lambda>occ. fst occ = i + j + 1) e3 = []"
    using e3(2) by (auto simp: filter_empty_conv)
  show ?thesis
    unfolding run e3(1) analyze_line_lookup e1(1) using f1 f3 by simp
qed

text \<open>
  Claim C10. At a line the loop does not skip (the flag left by the lines before it is
  unset and the line is no marker, or the line is a comment), each of the three lists
  receives exactly one Finding with this line's number when the line matches the
  list's signature, and none otherwise, however many signatures match and however
  often a signature occurs on the line. The Finding carries the trimmed line.
\<close>

theorem one_finding_per_matching_kind:
  assumes "j < length lns"
    and "\<not> ((in_test_block (analyze_lines (take j lns)) \<or> test_pattern (lns ! j))
            \<and> \<not> prefix ''//'' (strip (lns ! j)))"
  shows "filter (\<lambda>occ. fst occ = j + 1) (unwrap (found (analyze_lines lns))) =
           (if unwrap_pattern (lns ! j) then [(j + 1, strip (lns ! j))] else [])
       \<and> filter (\<lambda>occ. fst occ = j + 1) (expect (found (analyze_lines lns))) =
           (if expect_pattern (lns ! j) \<noteq> None then [(j + 1, strip (lns ! j))] else [])
       \<and> filter (\<lambda>occ. fst occ = j + 1) (panic (found (analyze_lines lns))) =
           (if panic_pattern (lns ! j) then [(j + 1, strip (lns ! j))] else [])"
proof -
  have "filter (\<lambda>occ. fst occ = j + 1) (lookup (found (analyze_lines lns)) k) =
          (if signature k (lns ! j) then [(j + 1, strip (lns ! j))] else [])" for k
    using analyze_loop_at [OF assms(1), of 0 "\<lparr>in_test_block = False, found = no_issues\<rparr>" k] assms(2)
    by (cases k) (simp_all add: analyze_lines_def lookup_def no_issues_def)
  from this [of Unwrap] this [of Expect] this [of Panic] show ?thesis
    by (simp add: lookup_def signature_def)
qed

text \<open>
  The first example line holds \<^verbatim>\<open>.unwrap()\<close> twice and \<^verbatim>\<open>panic!(\<close> once: one
  unwrap Finding, one panic Finding, no expect Finding.
\<close>

theorem one_finding_per_matching_kind_witness:
  "0 < length ex_lines
   \<and> \<not> ((in_test_block (analyze_lines (take 0 ex_lines)) \<or> test_pattern (ex_lines ! 0))
          \<and> \<not> prefix ''//'' (strip (ex_lines ! 0)))
   \<and> filter (\<lambda>occ. fst occ = 0 + 1) (unwrap (found (analyze_lines ex_lines))) =
        [(1, ''a.unwrap().unwrap(); panic!(1)'')]
   \<and> filter (\<lambda>occ. fst occ = 0 + 1) (expect (found (analyze_lines ex_lines))) = []
   \<and> filter (\<lambda>occ. fst occ = 0 + 1) (panic (found (analyze_lines ex_lines))) =
        [(1, ''a.unwrap().unwrap(); panic!(1)'')]"
proof -
  have h1: "0 < length ex_lines" by (simp add: ex_lines_def)
  have h2: "\<not> ((in_test_block (analyze_lines (take 0 ex_lines)) \<or> test_pattern (ex_lines ! 0))
          \<and> \<not> prefix ''//'' (strip (ex_lines ! 0)))"
    by (simp add: ex_lines_def analyze_lines_def test_pattern_def)
  have v: "unwrap_pattern (ex_lines ! 0)" "expect_pattern (ex_lines ! 0) = None"
    "panic_pattern (ex_lines ! 0)" "strip (ex_lines ! 0) = ''a.unwrap().unwrap(); panic!(1)''"
    by (simp_all add: ex_lines_def unwrap_pattern_def expect_pattern_def panic_pattern_def
        match_quoted_at_def dquote_def strip_def isspace_def)
  from one_finding_per_matching_kind [OF h1 h2] h1 h2 show ?thesis
    by (simp only: v) simp
qed

text \<open>
  Claim C2. Once line \<open>i\<close> matches the test-region marker, the flag is set after
  every later iteration, and no line from \<open>i\<close> on that is not a comment line has a
  Finding of any kind, whatever it matches.
\<close>

theorem sticky_test_region:
  assumes "i < length lns" and "test_pattern (lns ! i)"
  shows "(\<forall>k. i < k \<and> k \<le> length lns \<longrightarrow> in_test_block (analyze_lines (take k lns)))
       \<and> (\<forall>j. i \<le> j \<and> j < length lns \<and> \<not> prefix ''//'' (strip (lns ! j)) \<longrightarrow>
            (\<forall>occ \<in> set (unwrap (found (analyze_lines lns))) \<union> set (expect (found (analyze_lines lns)))
                      \<union> set (panic (found (analyze_lines lns))). fst occ \<noteq> j + 1))"
proof (intro conjI allI impI)
  fix k assume k: "i < k \<and> k \<le> length lns"
  then have "lns ! i \<in> set (take k lns)"
    using assms(1) by (metis in_set_conv_nth length_take min.absorb2 nth_take)
  then show "in_test_block (analyze_lines (take k lns))"
    using assms(2) by (auto simp: analyze_lines_def analyze_loop_flag)
next
  fix j assume j: "i \<le> j \<and> j < length lns \<and> \<not> prefix ''//'' (strip (lns ! j))"
  let ?init = "\<lparr>in_test_block = False, found = no_issues\<rparr>"
  have flag: "in_test_block (analyze_loop 0 (take j lns) ?init) \<or> test_pattern (lns ! j)"
  proof (cases "i = j")
    case True
    then show ?thesis using assms(2) by simp
  next
    case False
    then have "i < j" using j by simp
    then have "lns ! i \<in> set (take j lns)"
      using j by (metis in_set_conv_nth length_take min.absorb2 nth_take less_imp_le)
    then show ?thesis using assms(2) by (auto simp: analyze_loop_flag)
  qed
  have none: "filter (\<lambda>occ. fst occ = j + 1) (lookup (found (analyze_lines lns)) k) = []" for k
    using analyze_loop_at [of j lns 0 ?init k] j flag
    by (cases k) (auto simp: analyze_lines_def lookup_def no_issues_def)
  show "\<forall>occ \<in> set (unwrap (found (analyze_lines lns))) \<union> set (expect (found (analyze_lines lns)))
                      \<union> set (panic (found (analyze_lines lns))). fst occ \<noteq> j + 1"
    using none [of Unwrap] none [of Expect] none [of Panic]
    by (auto simp: lookup_def filter_empty_conv)
qed

text \<open>
  In the example the marker is the second line (index 1): the flag is set after three
  lines, and the third line, which holds \<^verbatim>\<open>.unwrap()\<close>, has no Finding.
\<close>

theorem sticky_test_region_witness:
  "1 < length ex_lines \<and> test_pattern (ex_lines ! 1)
   \<and> in_test_block (analyze_lines (take 3 ex_lines))
   \<and> \<not> prefix ''//'' (strip (ex_lines ! 2))
   \<and> 2 + 1 \<notin> fst ` (set (unwrap (found (analyze_lines ex_lines)))
                      \<union> set (expect (found (analyze_lines ex_lines)))
                      \<union> set (panic (found (analyze_lines ex_lines))))"
proof -
  have h1: "1 < length ex_lines" by (simp add: ex_lines_def)
  have h2: "test_pattern (ex_lines ! 1)" by (simp add: ex_lines_def test_pattern_def)
  have h3: "\<not> prefix ''//'' (strip (ex_lines ! 2))"
    by (simp add: ex_lines_def strip_def isspace_def)
  note t = sticky_test_region [OF h1 h2]
  have a: "in_test_block (analyze_lines (take 3 ex_lines))"
    by (rule t [THEN conjunct1, THEN spec, THEN mp]) (simp add: ex_lines_def)
  have "\<forall>occ \<in> set (unwrap (found (analyze_lines ex_lines)))
                \<union> set (expect (found (analyze_lines ex_lines)))
                \<union> set (panic (found (analyze_lines ex_lines))). fst occ \<noteq> 2 + 1"
    by (rule t [THEN conjunct2, THEN spec, THEN mp]) (simp add: h3, simp add: ex_lines_def)
  then have b: "2 + 1 \<notin> fst ` (set (unwrap (found (analyze_lines ex_lines)))
                      \<union> set (expect (found (analyze_lines ex_lines)))
                      \<union> set (panic (found (analyze_lines ex_lines))))"
    by (auto simp: image_iff)
  from h1 h2 a h3 b show ?thesis by (intro conjI)
qed

subsection \<open>Replacement and pattern search\<close>

lemma replace_from_none: "\<not> contains_str old s \<Longrightarrow> replace_from old new s = s"
  by (induction s) auto

lemma replace_str_none: "\<not> contains_str old s \<Longrightarrow> replace_str old new s = s"
  by (cases s) (auto simp: replace_str_def replace_from_none)

lemma replace_from_first:
  assumes "old \<noteq> []"
    and "\<And>t. t \<noteq> [] \<Longrightarrow> suffix t pre \<Longrightarrow> \<not> prefix old (t @ old @ post)"
  shows "replace_from old new (pre @ old @ post) = pre @ new @ replace_from old new post"
  using assms(2)
proof (induction pre)
  case Nil
  obtain c cs where old: "old = c # cs" using assms(1) by (cases old) auto
  show ?case by (simp add: old)
next
  case (Cons a pre)
  have "\<not> prefix old ((a # pre) @ old @ post)"
    using Cons.prems [of "a # pre"] by simp
  moreover have "replace_from old new (pre @ old @ post) = pre @ new @ replace_from old new post"
  proof (rule Cons.IH)
    fix t :: string assume "t \<noteq> []" "suffix t pre"
    then show "\<not> prefix old (t @ old @ post)"
      using Cons.prems [of t] by (simp add: suffix_Cons)
  qed
  ultimately show ?case by simp
qed

lemma prefix_in_suffix_contains:
  assumes "suffix t pre" and "prefix pat t"
  shows "contains_str pat pre"
proof -
  obtain a where "pre = a @ t" using assms(1) by (auto simp: suffix_def)
  moreover obtain z where "t = pat @ z" using assms(2) by (auto simp: prefix_def)
  ultimately have "pre = a @ pat @ z" by simp
  then show ?thesis unfolding contains_str_iff by blast
qed

lemma unwrap_no_overlap:
  assumes "t \<noteq> []" and "prefix ''.unwrap()'' (t @ ''.unwrap()'' @ post)"
  shows "prefix ''.unwrap()'' t"
  using assms
  by (auto simp: prefix_append append_eq_Cons_conv Cons_eq_append_conv)

lemma match_quoted_at_Some:
  assumes "match_quoted_at kw s = Some m"
  shows "\<exists>post. s = kw @ [dquote] @ m @ [dquote, CHR '')''] @ post \<and> dquote \<notin> set m"
proof -
  from assms have pre: "prefix (kw @ [dquote]) s"
    by (auto simp: match_quoted_at_def split: if_splits)
  then obtain rest where s: "s = (kw @ [dquote]) @ rest" by (auto simp: prefix_def)
  have rest: "drop (length (kw @ [dquote])) s = rest" unfolding s by simp
  from assms pre have m: "m = takeWhile (\<lambda>c. c \<noteq> dquote) rest"
    and tl: "prefix [dquote, CHR '')''] (dropWhile (\<lambda>c. c \<noteq> dquote) rest)"
    unfolding match_quoted_at_def rest Let_def by (auto split: if_splits)
  from tl obtain post where post: "dropWhile (\<lambda>c. c \<noteq> dquote) rest = [dquote, CHR '')''] @ post"
    by (auto simp: prefix_def)
  have "rest = takeWhile (\<lambda>c. c \<noteq> dquote) rest @ dropWhile (\<lambda>c. c \<noteq> dquote) rest" by simp
  then have "rest = m @ [dquote, CHR '')''] @ post" using m post by simp
  moreover have "dquote \<notin> set m" unfolding m by (auto dest: set_takeWhileD)
  ultimately show ?thesis using s by auto
qed

lemma match_quoted_at_complete:
  assumes "dquote \<notin> set m"
  shows "match_quoted_at kw (kw @ [dquote] @ m @ [dquote, CHR '')''] @ post) = Some m"
proof -
  have d: "drop (length (kw @ [dquote])) (kw @ [dquote] @ m @ [dquote, CHR '')''] @ post)
             = m @ dquote # CHR '')'' # post" by simp
  have t: "takeWhile (\<lambda>c. c \<noteq> dquote) (m @ dquote # CHR '')'' # post) = m"
    using assms by (induction m) auto
  have dw: "dropWhile (\<lambda>c. c \<noteq> dquote) (m @ dquote # CHR '')'' # post) = dquote # CHR '')'' # post"
    using assms by (induction m) auto
  have p: "prefix (kw @ [dquote]) (kw @ [dquote] @ m @ [dquote, CHR '')''] @ post)"
    by (simp add: prefix_def)
  show ?thesis unfolding match_quoted_at_def Let_def d t dw using p by simp
qed

lemma search_quoted_Some:
  assumes "search_quoted kw s = Some m"
  shows "\<exists>pre rest. s = pre @ rest \<and> match_quoted_at kw rest = Some m
           \<and> (\<forall>t. t \<noteq> [] \<and> suffix t pre \<longrightarrow> match_quoted_at kw (t @ rest) = None)"
  using assms
proof (induction s)
  case Nil
  then have "[] = [] @ [] \<and> match_quoted_at kw [] = Some m" by simp
  then show ?case by (metis suffix_bot.extremum_uniqueI)
next
  case (Cons c cs)
  show ?case
  proof (cases "match_quoted_at kw (c # cs)")
    case (Some m')
    with Cons.prems have "m' = m" by simp
    with Some have "c # cs = [] @ (c # cs) \<and> match_quoted_at kw (c # cs) = Some m" by simp
    then show ?thesis by (metis suffix_bot.extremum_uniqueI)
  next
    case None
    with Cons.prems have "search_quoted kw cs = Some m" by simp
    with Cons.IH obtain pre rest where ih: "cs = pre @ rest" "match_quoted_at kw rest = Some m"
      "\<forall>t. t \<noteq> [] \<and> suffix t pre \<longrightarrow> match_quoted_at kw (t @ rest) = None" by blast
    have "\<forall>t. t \<noteq> [] \<and> suffix t (c # pre) \<longrightarrow> match_quoted_at kw (t @ rest) = None"
      using ih(1,3) None by (auto simp: suffix_Cons)
    moreover have "c # cs = (c # pre) @ rest" using ih(1) by simp
    ultimately show ?thesis using ih(2) by blast
  qed
qed

lemma search_quoted_None:
  assumes "search_quoted kw s = None"
  shows "match_quoted_at kw (drop k s) = None"
  using assms
proof (induction s arbitrary: k)
  case Nil
  then show ?case by simp
next
  case (Cons c cs)
  then show ?case by (cases k) (auto split: option.splits)
qed

lemma search_quoted_None_no_literal:
  assumes "search_quoted kw s = None" and "dquote \<notin> set m"
  shows "s \<noteq> pre @ kw @ [dquote] @ m @ [dquote, CHR '')''] @ post"
proof
  assume s: "s = pre @ kw @ [dquote] @ m @ [dquote, CHR '')''] @ post"
  have "match_quoted_at kw (drop (length pre) s) = None"
    using assms(1) by (rule search_quoted_None)
  moreover have "drop (length pre) s = kw @ [dquote] @ m @ [dquote, CHR '')''] @ post"
    unfolding s by simp
  ultimately show False using match_quoted_at_complete [OF assms(2), of kw post] by simp
qed

subsection \<open>Suggestions\<close>

lemma replace_unwrap_first:
  assumes "\<not> contains_str ''.unwrap()'' pre"
  shows "replace_str ''.unwrap()'' new (pre @ ''.unwrap()'' @ post) =
           pre @ new @ replace_str ''.unwrap()'' new post"
proof -
  have "replace_from ''.unwrap()'' new (pre @ ''.unwrap()'' @ post) =
          pre @ new @ replace_from ''.unwrap()'' new post"
  proof (rule replace_from_first)
    show "''.unwrap()'' \<noteq> []" by simp
  next
    fix t :: string assume t: "t \<noteq> []" "suffix t pre"
    show "\<not> prefix ''.unwrap()'' (t @ ''.unwrap()'' @ post)"
    proof
      assume "prefix ''.unwrap()'' (t @ ''.unwrap()'' @ post)"
      then have "prefix ''.unwrap()'' t" using t(1) by (rule unwrap_no_overlap [rotated])
      then have "contains_str ''.unwrap()'' pre" using t(2) by (rule prefix_in_suffix_contains [rotated])
      then show False using assms by simp
    qed
  qed
  then show ?thesis by (simp add: replace_str_def)
qed

text \<open>
  Claim C4. Let the line be \<open>pre\<close>, the first \<^verbatim>\<open>.unwrap()\<close>, and \<open>post\<close>. One
  replacement text is chosen by the first rule that applies: the lock-error mapping
  when the line contains \<^verbatim>\<open>lock().unwrap()\<close>, else the parse-error mapping when it
  contains \<^verbatim>\<open>parse().unwrap()\<close>, else the conversion-error mapping when it contains
  \<^verbatim>\<open>to_string().unwrap()\<close>, else the bare \<^verbatim>\<open>?\<close>. The suggestion is \<open>pre\<close>
  unchanged, the replacement, and \<open>post\<close> with its own \<^verbatim>\<open>.unwrap()\<close> calls replaced
  by the same text; with a single \<^verbatim>\<open>.unwrap()\<close> on the line, \<open>post\<close> is unchanged too.
\<close>

theorem suggest_unwrap_fix_rules:
  assumes "ln = pre @ ''.unwrap()'' @ post" and "\<not> contains_str ''.unwrap()'' pre"
  shows "let new = (if contains_str ''lock().unwrap()'' ln
                    then ''.map_err(|e| StorageError::LockError(e.to_string()))?''
                    else if contains_str ''parse().unwrap()'' ln
                    then ''.map_err(|e| ValidationError::ParseError(e.to_string()))?''
                    else if contains_str ''to_string().unwrap()'' ln
                    then ''.map_err(|_| ValidationError::ConversionError)?''
                    else ''?'')
         in suggest_unwrap_fix ln = pre @ new @ replace_str ''.unwrap()'' new post
            \<and> (\<not> contains_str ''.unwrap()'' post \<longrightarrow> suggest_unwrap_fix ln = pre @ new @ post)"
proof -
  have key: "replace_str ''.unwrap()'' new ln = pre @ new @ replace_str ''.unwrap()'' new post"
    for new
    unfolding assms(1) using assms(2) by (rule replace_unwrap_first)
  show ?thesis
    unfolding suggest_unwrap_fix_def Let_def by (simp add: key replace_str_none)
qed

text \<open>The line \<^verbatim>\<open>let v = data.lock().unwrap();\<close> of the specification.\<close>

theorem suggest_unwrap_fix_rules_witness:
  "''let v = data.lock().unwrap();'' = ''let v = data.lock()'' @ ''.unwrap()'' @ '';''
   \<and> \<not> contains_str ''.unwrap()'' ''let v = data.lock()''
   \<and> suggest_unwrap_fix ''let v = data.lock().unwrap();'' =
       ''let v = data.lock().map_err(|e| StorageError::LockError(e.to_string()))?;''"
proof -
  have h1: "''let v = data.lock().unwrap();'' = ''let v = data.lock()'' @ ''.unwrap()'' @ '';''"
    by simp
  have h2: "\<not> contains_str ''.unwrap()'' ''let v = data.lock()''" by simp
  have "suggest_unwrap_fix ''let v = data.lock().unwrap();'' =
       ''let v = data.lock().map_err(|e| StorageError::LockError(e.to_string()))?;''"
    using suggest_unwrap_fix_rules [OF h1 h2] by (simp add: Let_def replace_str_def)
  with h1 h2 show ?thesis by (intro conjI)
qed

text \<open>The suggestions for some lines, computed.\<close>

lemma suggest_unwrap_fix_lock:
  "suggest_unwrap_fix ''let v = data.lock().unwrap();'' =
     ''let v = data.lock().map_err(|e| StorageError::LockError(e.to_string()))?;''"
  by (simp add: suggest_unwrap_fix_def replace_str_def)

lemma suggest_unwrap_fix_parse:
  "suggest_unwrap_fix ''let n = s.parse().unwrap();'' =
     ''let n = s.parse().map_err(|e| ValidationError::ParseError(e.to_string()))?;''"
  by (simp add: suggest_unwrap_fix_def replace_str_def)

lemma suggest_unwrap_fix_bare:
  "suggest_unwrap_fix ''let x = f().unwrap();'' = ''let x = f()?;''"
  by (simp add: suggest_unwrap_fix_def replace_str_def)

lemma suggest_unwrap_fix_two:
  "suggest_unwrap_fix ''a.lock().unwrap(); s.parse().unwrap()'' =
     ''a.lock().map_err(|e| StorageError::LockError(e.to_string()))?; s.parse().map_err(|e| StorageError::LockError(e.to_string()))?''"
  by (simp add: suggest_unwrap_fix_def replace_str_def)

text \<open>
  Claim C6. On a line with \<^verbatim>\<open>panic!(\<close>, a literal message is extractable exactly
  when the line holds \<^verbatim>\<open>panic!("msg")\<close> for some \<open>msg\<close> without a double quote
  (the character \<open>CHR 0x22\<close>). If one is extracted, the suggestion is the statement
  \<^verbatim>\<open>return Err(SupernovaError::InternalError("msg".to_string()));\<close> with that literal,
  which is the literal of such an invocation on the line; if none is, the suggestion is
  the same statement with the message \<^verbatim>\<open>Unexpected error\<close>.
\<close>

theorem suggest_panic_fix_cases:
  assumes "contains_str ''panic!('' ln"
  shows "((\<exists>msg. search_quoted ''panic!('' ln = Some msg) \<longleftrightarrow>
            (\<exists>pre msg post. CHR 0x22 \<notin> set msg
               \<and> ln = pre @ ''panic!('' @ [CHR 0x22] @ msg @ [CHR 0x22, CHR '')''] @ post))
       \<and> (\<forall>msg. search_quoted ''panic!('' ln = Some msg \<longrightarrow>
             suggest_panic_fix ln =
               ''return Err(SupernovaError::InternalError('' @ [CHR 0x22] @ msg @ [CHR 0x22]
                 @ ''.to_string()));''
             \<and> (\<exists>pre post. ln = pre @ ''panic!('' @ [CHR 0x22] @ msg @ [CHR 0x22, CHR '')''] @ post)
             \<and> CHR 0x22 \<notin> set msg)
       \<and> (search_quoted ''panic!('' ln = None \<longrightarrow>
             suggest_panic_fix ln =
               ''return Err(SupernovaError::InternalError('' @ [CHR 0x22] @ ''Unexpected error''
                 @ [CHR 0x22] @ ''.to_string()));'')"
proof -
  have some: "\<exists>pre post. ln = pre @ ''panic!('' @ [CHR 0x22] @ msg @ [CHR 0x22, CHR '')''] @ post
                \<and> CHR 0x22 \<notin> set msg"
    if "search_quoted ''panic!('' ln = Some msg" for msg
  proof -
    from search_quoted_Some [OF that] obtain pre rest where
      "ln = pre @ rest" "match_quoted_at ''panic!('' rest = Some msg" by blast
    moreover from match_quoted_at_Some [OF this(2)] obtain post where
      "rest = ''panic!('' @ [dquote] @ msg @ [dquote, CHR '')''] @ post" "dquote \<notin> set msg" by blast
    ultimately show ?thesis unfolding dquote_def by blast
  qed
  have none: "search_quoted ''panic!('' ln \<noteq> None"
    if "CHR 0x22 \<notin> set msg" "ln = pre @ ''panic!('' @ [CHR 0x22] @ msg @ [CHR 0x22, CHR '')''] @ post"
    for pre msg post
    using search_quoted_None_no_literal [of "''panic!(''" ln msg pre post] that
    unfolding dquote_def by blast
  have 1: "(\<exists>msg. search_quoted ''panic!('' ln = Some msg) \<longleftrightarrow>
            (\<exists>pre msg post. CHR 0x22 \<notin> set msg
               \<and> ln = pre @ ''panic!('' @ [CHR 0x22] @ msg @ [CHR 0x22, CHR '')''] @ post)"
    using some none by (metis not_Some_eq)
  have 2: "suggest_panic_fix ln =
             ''return Err(SupernovaError::InternalError('' @ [CHR 0x22] @ msg @ [CHR 0x22]
               @ ''.to_string()));''"
    if "search_quoted ''panic!('' ln = Some msg" for msg
    using assms that by (simp add: suggest_panic_fix_def internal_error_return_def dquote_def)
  have 3: "suggest_panic_fix ln =
             ''return Err(SupernovaError::InternalError('' @ [CHR 0x22] @ ''Unexpected error''
               @ [CHR 0x22] @ ''.to_string()));''"
    if "search_quoted ''panic!('' ln = None"
    using assms that by (simp add: suggest_panic_fix_def internal_error_return_def dquote_def)
  from 1 2 3 some show ?thesis by blast
qed

text \<open>The two lines \<^verbatim>\<open>panic!("bad state");\<close> and \<^verbatim>\<open>panic!();\<close>.\<close>

theorem suggest_panic_fix_cases_witness:
  \<open>contains_str ''panic!('' ''panic!("bad state");''
   \<and> search_quoted ''panic!('' ''panic!("bad state");'' = Some ''bad state''
   \<and> suggest_panic_fix ''panic!("bad state");'' =
       ''return Err(SupernovaError::InternalError("bad state".to_string()));''
   \<and> contains_str ''panic!('' ''panic!();''
   \<and> search_quoted ''panic!('' ''panic!();'' = None
   \<and> suggest_panic_fix ''panic!();'' =
       ''return Err(SupernovaError::InternalError("Unexpected error".to_string()));''\<close>
proof -
  have h1: \<open>contains_str ''panic!('' ''panic!("bad state");''\<close> by simp
  have s1: \<open>search_quoted ''panic!('' ''panic!("bad state");'' = Some ''bad state''\<close>
    by (simp add: match_quoted_at_def dquote_def)
  have r1: \<open>suggest_panic_fix ''panic!("bad state");'' =
       ''return Err(SupernovaError::InternalError("bad state".to_string()));''\<close>
    using suggest_panic_fix_cases [OF h1, THEN conjunct2, THEN conjunct1, THEN spec, THEN mp, OF s1,
        THEN conjunct1]
    by simp
  have h2: \<open>contains_str ''panic!('' ''panic!();''\<close> by simp
  have s2: \<open>search_quoted ''panic!('' ''panic!();'' = None\<close>
    by (simp add: match_quoted_at_def dquote_def)
  have r2: \<open>suggest_panic_fix ''panic!();'' =
       ''return Err(SupernovaError::InternalError("Unexpected error".to_string()));''\<close>
    using suggest_panic_fix_cases [OF h2, THEN conjunct2, THEN conjunct2, THEN mp, OF s2]
    by simp
  from h1 s1 r1 h2 s2 r2 show ?thesis by (intro conjI)
qed

text \<open>
  The two examples of the specification, computed, and an abort with format arguments,
  whose literal the pattern does not extract.
\<close>

lemma suggest_panic_fix_literal:
  \<open>suggest_panic_fix ''panic!("bad state")'' =
     ''return Err(SupernovaError::InternalError("bad state".to_string()));''\<close>
  by (simp add: suggest_panic_fix_def match_quoted_at_def internal_error_return_def dquote_def)

lemma suggest_panic_fix_no_literal:
  \<open>suggest_panic_fix ''panic!()'' =
     ''return Err(SupernovaError::InternalError("Unexpected error".to_string()));''\<close>
  by (simp add: suggest_panic_fix_def match_quoted_at_def internal_error_return_def dquote_def)

lemma suggest_panic_fix_format_args:
  \<open>suggest_panic_fix ''panic!("value: {}", v);'' =
     ''return Err(SupernovaError::InternalError("Unexpected error".to_string()));''\<close>
  by (simp add: suggest_panic_fix_def match_quoted_at_def internal_error_return_def dquote_def)

lemma expect_call_prefix_match:
  assumes "dquote \<notin> set m" and "prefix (expect_call m) s"
  shows "match_quoted_at ''.expect('' s = Some m"
proof -
  from assms(2) obtain z where "s = expect_call m @ z" by (auto simp: prefix_def)
  then have "s = ''.expect('' @ [dquote] @ m @ [dquote, CHR '')''] @ z"
    by (simp add: expect_call_def)
  then show ?thesis by (simp only: match_quoted_at_complete [OF assms(1)])
qed

text \<open>
  Claim C5, as amended. Let \<open>m\<close> be the message the pattern captures on the line,
  that of the leftmost annotated expectation; it holds no double quote. The suggestion
  is the line with the text \<^verbatim>\<open>.expect("m")\<close> replaced, wherever it occurs from left to
  right, by \<^verbatim>\<open>.ok_or_else(|| ValidationError::InvalidInput("m".to_string()))?\<close>. The
  line is \<open>pre\<close>, that call and \<open>post\<close>, with no annotated expectation starting in
  \<open>pre\<close>; the suggestion keeps \<open>pre\<close>, replaces the call, and replaces the same
  text in \<open>post\<close>; when the text does not occur in \<open>post\<close>, \<open>post\<close> is unchanged.
\<close>

theorem suggest_expect_fix_leftmost:
  assumes "expect_pattern ln = Some m"
  shows "CHR 0x22 \<notin> set m
       \<and> suggest_expect_fix ln =
           replace_str (''.expect('' @ [CHR 0x22] @ m @ [CHR 0x22] @ '')'')
             (''.ok_or_else(|| ValidationError::InvalidInput('' @ [CHR 0x22] @ m @ [CHR 0x22]
                @ ''.to_string()))?'') ln
       \<and> (\<exists>pre post.
             ln = pre @ (''.expect('' @ [CHR 0x22] @ m @ [CHR 0x22] @ '')'') @ post
           \<and> (\<forall>t. t \<noteq> [] \<and> suffix t pre \<longrightarrow>
                 \<not> (\<exists>m' rest. CHR 0x22 \<notin> set m'
                       \<and> t @ (''.expect('' @ [CHR 0x22] @ m @ [CHR 0x22] @ '')'') @ post =
                           ''.expect('' @ [CHR 0x22] @ m' @ [CHR 0x22] @ '')'' @ rest))
           \<and> suggest_expect_fix ln =
               pre @ (''.ok_or_else(|| ValidationError::InvalidInput('' @ [CHR 0x22] @ m
                        @ [CHR 0x22] @ ''.to_string()))?'')
               @ replace_str (''.expect('' @ [CHR 0x22] @ m @ [CHR 0x22] @ '')'')
                   (''.ok_or_else(|| ValidationError::InvalidInput('' @ [CHR 0x22] @ m
                      @ [CHR 0x22] @ ''.to_string()))?'') post
           \<and> (\<not> contains_str (''.expect('' @ [CHR 0x22] @ m @ [CHR 0x22] @ '')'') post \<longrightarrow>
                 suggest_expect_fix ln =
                   pre @ (''.ok_or_else(|| ValidationError::InvalidInput('' @ [CHR 0x22] @ m
                            @ [CHR 0x22] @ ''.to_string()))?'') @ post))"
proof -
  have call: "''.expect('' @ [CHR 0x22] @ m @ [CHR 0x22] @ '')'' = expect_call m"
    by (simp add: expect_call_def dquote_def)
  have conv: "''.ok_or_else(|| ValidationError::InvalidInput('' @ [CHR 0x22] @ m @ [CHR 0x22]
                @ ''.to_string()))?'' = ok_or_else_call m"
    by (simp add: ok_or_else_call_def dquote_def)
  from assms have "search_quoted ''.expect('' ln = Some m" by (simp add: expect_pattern_def)
  from search_quoted_Some [OF this] obtain pre rest where pr: "ln = pre @ rest"
    "match_quoted_at ''.expect('' rest = Some m"
    "\<forall>t. t \<noteq> [] \<and> suffix t pre \<longrightarrow> match_quoted_at ''.expect('' (t @ rest) = None" by blast
  from match_quoted_at_Some [OF pr(2)] obtain post where
    post: "rest = ''.expect('' @ [dquote] @ m @ [dquote, CHR '')''] @ post" and m: "dquote \<notin> set m"
    by blast
  have rest: "rest = expect_call m @ post" using post by (simp add: expect_call_def)
  have ne: "expect_call m \<noteq> []" by (simp add: expect_call_def)
  have early: "\<not> (\<exists>m' rest'. CHR 0x22 \<notin> set m'
                 \<and> t @ expect_call m @ post = ''.expect('' @ [CHR 0x22] @ m' @ [CHR 0x22] @ '')'' @ rest')"
    if t: "t \<noteq> []" "suffix t pre" for t
  proof
    assume "\<exists>m' rest'. CHR 0x22 \<notin> set m'
                 \<and> t @ expect_call m @ post = ''.expect('' @ [CHR 0x22] @ m' @ [CHR 0x22] @ '')'' @ rest'"
    then obtain m' rest' where e: "dquote \<notin> set m'"
      "t @ expect_call m @ post = ''.expect('' @ [dquote] @ m' @ [dquote, CHR '')''] @ rest'"
      by (auto simp: dquote_def)
    have "match_quoted_at ''.expect('' (t @ expect_call m @ post) = Some m'"
      unfolding e(2) using e(1) by (rule match_quoted_at_complete)
    then show False using pr(3) t rest by simp
  qed
  have "replace_from (expect_call m) (ok_or_else_call m) (pre @ expect_call m @ post) =
          pre @ ok_or_else_call m @ replace_from (expect_call m) (ok_or_else_call m) post"
  proof (rule replace_from_first [OF ne])
    fix t :: string assume t: "t \<noteq> []" "suffix t pre"
    show "\<not> prefix (expect_call m) (t @ expect_call m @ post)"
    proof
      assume "prefix (expect_call m) (t @ expect_call m @ post)"
      then have "match_quoted_at ''.expect('' (t @ expect_call m @ post) = Some m"
        using m by (rule expect_call_prefix_match [rotated])
      then show False using pr(3) t rest by simp
    qed
  qed
  then have split: "replace_str (expect_call m) (ok_or_else_call m) ln =
      pre @ ok_or_else_call m @ replace_str (expect_call m) (ok_or_else_call m) post"
    using pr(1) rest ne by (simp add: replace_str_def)
  have whole: "suggest_expect_fix ln = replace_str (expect_call m) (ok_or_else_call m) ln"
    using assms by (simp add: suggest_expect_fix_def)
  have res: "suggest_expect_fix ln =
      pre @ ok_or_else_call m @ replace_str (expect_call m) (ok_or_else_call m) post"
    using whole split by simp
  have once: "\<not> contains_str (expect_call m) post \<longrightarrow>
          suggest_expect_fix ln = pre @ ok_or_else_call m @ post"
    using res by (simp add: replace_str_none)
  have m': "CHR 0x22 \<notin> set m" using m by (simp add: dquote_def)
  have dec: "ln = pre @ expect_call m @ post" using pr(1) rest by simp
  show ?thesis
    unfolding call conv using m' whole dec early res once by blast
qed

text \<open>
  The line \<^verbatim>\<open>x.expect("a").expect("b")\<close>, whose captured message is \<^verbatim>\<open>a\<close>, and a
  line with the same call twice.
\<close>

theorem suggest_expect_fix_leftmost_witness:
  \<open>expect_pattern ''x.expect("a").expect("b")'' = Some ''a''
   \<and> suggest_expect_fix ''x.expect("a").expect("b")'' =
       ''x.ok_or_else(|| ValidationError::InvalidInput("a".to_string()))?.expect("b")''
   \<and> expect_pattern ''p.expect("m") + q.expect("m")'' = Some ''m''
   \<and> suggest_expect_fix ''p.expect("m") + q.expect("m")'' =
       ''p.ok_or_else(|| ValidationError::InvalidInput("m".to_string()))? + q.ok_or_else(|| ValidationError::InvalidInput("m".to_string()))?''\<close>
proof -
  have h: \<open>expect_pattern ''x.expect("a").expect("b")'' = Some ''a''\<close>
    by (simp add: expect_pattern_def match_quoted_at_def dquote_def)
  have r: \<open>suggest_expect_fix ''x.expect("a").expect("b")'' =
       ''x.ok_or_else(|| ValidationError::InvalidInput("a".to_string()))?.expect("b")''\<close>
    using suggest_expect_fix_leftmost [OF h, THEN conjunct2, THEN conjunct1]
    by (simp add: replace_str_def)
  have h2: \<open>expect_pattern ''p.expect("m") + q.expect("m")'' = Some ''m''\<close>
    by (simp add: expect_pattern_def match_quoted_at_def dquote_def)
  have r2: \<open>suggest_expect_fix ''p.expect("m") + q.expect("m")'' =
       ''p.ok_or_else(|| ValidationError::InvalidInput("m".to_string()))? + q.ok_or_else(|| ValidationError::InvalidInput("m".to_string()))?''\<close>
    using suggest_expect_fix_leftmost [OF h2, THEN conjunct2, THEN conjunct1]
    by (simp add: replace_str_def)
  from h r h2 r2 show ?thesis by (intro conjI)
qed

text \<open>
  Claim C5 as stated fails on that line for the message \<^verbatim>\<open>b\<close>: the line contains
  the annotated expectation \<^verbatim>\<open>.expect("b")\<close>, and the suggestion keeps it and holds
  no conversion carrying \<^verbatim>\<open>b\<close>.
\<close>

theorem suggest_expect_fix_counterexample:
  \<open>contains_str ''.expect("b")'' ''x.expect("a").expect("b")''
   \<and> suggest_expect_fix ''x.expect("a").expect("b")'' =
       ''x.ok_or_else(|| ValidationError::InvalidInput("a".to_string()))?.expect("b")''
   \<and> \<not> contains_str ''.ok_or_else(|| ValidationError::InvalidInput("b".to_string()))?''
         (suggest_expect_fix ''x.expect("a").expect("b")'')\<close>
  by (simp add: suggest_expect_fix_def expect_pattern_def match_quoted_at_def dquote_def
      expect_call_def ok_or_else_call_def replace_str_def)

text \<open>
  The replaced text can stand inside a later expectation, which the replacement then
  breaks: here the second expectation has the message \<^verbatim>\<open>.expect(\<close>.
\<close>

lemma suggest_expect_fix_inside_later_message:
  \<open>suggest_expect_fix ''a.expect(")").expect(".expect(")")'' =
     ''a.ok_or_else(|| ValidationError::InvalidInput(")".to_string()))?.expect(".ok_or_else(|| ValidationError::InvalidInput(")".to_string()))?''\<close>
  by (simp add: suggest_expect_fix_def expect_pattern_def match_quoted_at_def dquote_def
      expect_call_def ok_or_else_call_def replace_str_def)

text \<open>The example of the specification, and a line with the same call twice.\<close>

lemma suggest_expect_fix_single:
  \<open>suggest_expect_fix ''let v = x.expect("must exist");'' =
     ''let v = x.ok_or_else(|| ValidationError::InvalidInput("must exist".to_string()))?;''\<close>
  by (simp add: suggest_expect_fix_def expect_pattern_def match_quoted_at_def dquote_def
      expect_call_def ok_or_else_call_def replace_str_def)

lemma suggest_expect_fix_repeated:
  \<open>suggest_expect_fix ''a.expect("m") + b.expect("m")'' =
     ''a.ok_or_else(|| ValidationError::InvalidInput("m".to_string()))? + b.ok_or_else(|| ValidationError::InvalidInput("m".to_string()))?''\<close>
  by (simp add: suggest_expect_fix_def expect_pattern_def match_quoted_at_def dquote_def
      expect_call_def ok_or_else_call_def replace_str_def)

subsection \<open>The report\<close>

text \<open>The definitions that a run on a concrete tree unfolds.\<close>

lemmas eval_defs = ex_tree_def ex_b_def ex_bad_def ex_a_def ex_t_def ex_nl_def
  generate_report_def run_audit_def find_rust_files_def rglob_rs_def report_file_def
  analyze_file_def analyze_lines_def analyze_line_def test_pattern_def unwrap_pattern_def
  expect_pattern_def panic_pattern_def match_quoted_at_def dquote_def strip_def isspace_def
  no_issues_def any_issues_def generate_fix_suggestions_def items_def make_finding_def suggest_def
  suggest_unwrap_fix_def suggest_expect_fix_def suggest_panic_fix_def replace_str_def
  expect_call_def ok_or_else_call_def internal_error_return_def group_by_file_def
  sorted_items_def Let_def suffix_def

lemma generate_fix_suggestions_by_kind:
  "generate_fix_suggestions p iss =
     map (make_finding p Unwrap) (unwrap iss) @ map (make_finding p Expect) (expect iss)
     @ map (make_finding p Panic) (panic iss)"
  by (simp add: generate_fix_suggestions_def items_def)

lemma generate_fix_suggestions_empty:
  "generate_fix_suggestions p iss = [] \<longleftrightarrow> \<not> any_issues iss"
  by (auto simp: generate_fix_suggestions_by_kind any_issues_def)

lemma generate_fix_suggestions_count:
  "length (filter (\<lambda>i. i_type i = k) (generate_fix_suggestions p iss)) = length (lookup iss k)"
  by (cases k)
     (simp_all add: generate_fix_suggestions_by_kind make_finding_def lookup_def filter_map o_def)

lemma generate_fix_suggestions_file:
  "i \<in> set (generate_fix_suggestions p iss) \<Longrightarrow> i_file i = p"
  by (auto simp: generate_fix_suggestions_by_kind make_finding_def)

lemma report_file_fields:
  "all_issues (report_file f a) =
     all_issues a @ generate_fix_suggestions (path f) (fst (analyze_file f))"
  "total_unwraps (report_file f a) = total_unwraps a + length (unwrap (fst (analyze_file f)))"
  "total_expects (report_file f a) = total_expects a + length (expect (fst (analyze_file f)))"
  "total_panics (report_file f a) = total_panics a + length (panic (fst (analyze_file f)))"
  "printed (report_file f a) = printed a @ snd (analyze_file f)"
  using generate_fix_suggestions_empty [of "path f" "fst (analyze_file f)"]
  by (auto simp: report_file_def Let_def any_issues_def split: prod.splits)

lemma report_loop_fields:
  "all_issues (report_loop fs a) =
     all_issues a @ concat (map (\<lambda>f. generate_fix_suggestions (path f) (fst (analyze_file f))) fs)"
  "total_unwraps (report_loop fs a) =
     total_unwraps a + sum_list (map (\<lambda>f. length (unwrap (fst (analyze_file f)))) fs)"
  "total_expects (report_loop fs a) =
     total_expects a + sum_list (map (\<lambda>f. length (expect (fst (analyze_file f)))) fs)"
  "total_panics (report_loop fs a) =
     total_panics a + sum_list (map (\<lambda>f. length (panic (fst (analyze_file f)))) fs)"
  "printed (report_loop fs a) = printed a @ concat (map (\<lambda>f. snd (analyze_file f)) fs)"
  by (induction fs arbitrary: a) (simp_all add: report_file_fields)

lemma report_loop_append:
  "report_loop (xs @ ys) a = report_loop ys (report_loop xs a)"
  by (induction xs arbitrary: a) simp_all

lemma printed_in_stdout:
  "set (printed (run_audit (find_rust_files walk))) \<subseteq> set (stdout (generate_report walk))"
  by (simp add: generate_report_def Let_def split: prod.splits)

lemma analyze_file_read_error:
  "content f = Inl e \<Longrightarrow> analyze_file f = (no_issues, [''Error reading '' @ path f @ '': '' @ e])"
  by (simp add: analyze_file_def)

lemma report_file_read_error:
  assumes "content f = Inl e"
  shows "report_file f a = a\<lparr>printed := printed a @ [''Error reading '' @ path f @ '': '' @ e]\<rparr>"
  using assms by (simp add: report_file_def analyze_file_def any_issues_def no_issues_def)

text \<open>
  Claim C8, as amended. When opening or reading a file fails, \<^verbatim>\<open>analyze_file\<close> returns
  the dictionary with three empty lists and prints one line, \<^verbatim>\<open>Error reading\<close>, the
  path and the exception's text. The loop over the files goes on with the next file
  from the state it had, with that line printed: the Findings and the totals of the
  run are those of the run without the file. The line is part of the standard output
  of the run, the stream the report goes to, and nothing is written to the standard
  error stream.
\<close>

theorem read_failure_is_not_fatal:
  assumes "content f = Inl e"
  shows "analyze_file f =
           (\<lparr>unwrap = [], expect = [], panic = []\<rparr>, [''Error reading '' @ path f @ '': '' @ e])
       \<and> report_loop (f # rest) a =
           report_loop rest (a\<lparr>printed := printed a @ [''Error reading '' @ path f @ '': '' @ e]\<rparr>)
       \<and> all_issues (run_audit (before @ f # rest)) = all_issues (run_audit (before @ rest))
       \<and> total_unwraps (run_audit (before @ f # rest)) = total_unwraps (run_audit (before @ rest))
       \<and> total_expects (run_audit (before @ f # rest)) = total_expects (run_audit (before @ rest))
       \<and> total_panics (run_audit (before @ f # rest)) = total_panics (run_audit (before @ rest))
       \<and> (\<forall>walk. find_rust_files walk = before @ f # rest \<longrightarrow>
             (''Error reading '' @ path f @ '': '' @ e) \<in> set (stdout (generate_report walk))
             \<and> stderr (generate_report walk) = [])"
proof -
  have af: "analyze_file f = (no_issues, [''Error reading '' @ path f @ '': '' @ e])"
    using assms by (rule analyze_file_read_error)
  have 1: "report_loop (f # rest) a =
           report_loop rest (a\<lparr>printed := printed a @ [''Error reading '' @ path f @ '': '' @ e]\<rparr>)"
    using assms by (simp add: report_file_read_error)
  have gf: "generate_fix_suggestions (path f) no_issues = []"
    by (simp add: generate_fix_suggestions_by_kind no_issues_def)
  have 2: "all_issues (run_audit (before @ f # rest)) = all_issues (run_audit (before @ rest))"
    by (simp add: run_audit_def report_loop_fields af gf)
  have 3: "total_unwraps (run_audit (before @ f # rest)) = total_unwraps (run_audit (before @ rest))"
    "total_expects (run_audit (before @ f # rest)) = total_expects (run_audit (before @ rest))"
    "total_panics (run_audit (before @ f # rest)) = total_panics (run_audit (before @ rest))"
    by (simp_all add: run_audit_def report_loop_fields af no_issues_def)
  have 4: "(''Error reading '' @ path f @ '': '' @ e) \<in> set (printed (run_audit (before @ f # rest)))"
    by (simp add: run_audit_def report_loop_fields af)
  have 5: "(''Error reading '' @ path f @ '': '' @ e) \<in> set (stdout (generate_report walk))"
    if "find_rust_files walk = before @ f # rest" for walk
    using 4 printed_in_stdout [of walk] that by auto
  have 6: "stderr (generate_report walk) = []" for walk
    by (simp add: generate_report_def Let_def split: prod.splits)
  from af 1 2 3 5 6 show ?thesis by (simp add: no_issues_def)
qed

text \<open>
  In the example tree the unreadable file is met between the two analysed ones: the
  Findings of both are there, and the line is on the standard output.
\<close>

theorem read_failure_is_not_fatal_witness:
  "content ex_bad = Inl (''[Errno 13] Permission denied: '' @ [CHR 0x27] @ ''src/bad.rs'' @ [CHR 0x27])
   \<and> analyze_file ex_bad =
       (\<lparr>unwrap = [], expect = [], panic = []\<rparr>,
        [''Error reading src/bad.rs: [Errno 13] Permission denied: '' @ [CHR 0x27] @ ''src/bad.rs''
           @ [CHR 0x27]])
   \<and> map i_file (all_issues (run_audit ([ex_b] @ ex_bad # [ex_a]))) =
       [''src/b.rs'', ''src/b.rs'', ''src/a.rs'']
   \<and> (''Error reading src/bad.rs: [Errno 13] Permission denied: '' @ [CHR 0x27] @ ''src/bad.rs''
        @ [CHR 0x27]) \<in> set (stdout (generate_report ex_tree))
   \<and> stderr (generate_report ex_tree) = []"
proof -
  have h: "content ex_bad =
      Inl (''[Errno 13] Permission denied: '' @ [CHR 0x27] @ ''src/bad.rs'' @ [CHR 0x27])"
    by (simp add: ex_bad_def)
  note t = read_failure_is_not_fatal [OF h, of "[ex_a]" _ "[ex_b]"]
  have p: "''Error reading '' @ path ex_bad @ '': ''
             @ (''[Errno 13] Permission denied: '' @ [CHR 0x27] @ ''src/bad.rs'' @ [CHR 0x27]) =
           ''Error reading src/bad.rs: [Errno 13] Permission denied: '' @ [CHR 0x27] @ ''src/bad.rs''
             @ [CHR 0x27]"
    by (simp add: ex_bad_def)
  have a: "analyze_file ex_bad =
       (\<lparr>unwrap = [], expect = [], panic = []\<rparr>,
        [''Error reading src/bad.rs: [Errno 13] Permission denied: '' @ [CHR 0x27] @ ''src/bad.rs''
           @ [CHR 0x27]])"
    using t [THEN conjunct1] unfolding p .
  have e: "map i_file (all_issues (run_audit ([ex_b] @ [ex_a]))) =
       [''src/b.rs'', ''src/b.rs'', ''src/a.rs'']"
    by (simp add: eval_defs)
  have eq: "all_issues (run_audit ([ex_b] @ ex_bad # [ex_a])) = all_issues (run_audit ([ex_b] @ [ex_a]))"
    using t by blast
  have b: "map i_file (all_issues (run_audit ([ex_b] @ ex_bad # [ex_a]))) =
       [''src/b.rs'', ''src/b.rs'', ''src/a.rs'']"
    unfolding eq by (rule e)
  have w: "find_rust_files ex_tree = [ex_b] @ ex_bad # [ex_a]"
    by (simp add: ex_tree_def ex_b_def ex_bad_def ex_a_def ex_t_def find_rust_files_def
        rglob_rs_def suffix_def)
  have "\<forall>walk. find_rust_files walk = [ex_b] @ ex_bad # [ex_a] \<longrightarrow>
          ''Error reading '' @ path ex_bad @ '': ''
             @ (''[Errno 13] Permission denied: '' @ [CHR 0x27] @ ''src/bad.rs'' @ [CHR 0x27])
            \<in> set (stdout (generate_report walk))
          \<and> stderr (generate_report walk) = []"
    using t by blast
  then have c: "(''Error reading src/bad.rs: [Errno 13] Permission denied: '' @ [CHR 0x27]
        @ ''src/bad.rs'' @ [CHR 0x27]) \<in> set (stdout (generate_report ex_tree))
      \<and> stderr (generate_report ex_tree) = []"
    using w unfolding p by blast
  from h a b c show ?thesis by (intro conjI) blast+
qed

text \<open>
  Claim C8 as stated fails on the example tree: the message of the unreadable file is
  the second line of the standard output, after the progress line and before the
  summary, and the standard error stream stays empty.
\<close>

theorem diagnostics_on_stdout_counterexample:
  "content ex_bad = Inl (''[Errno 13] Permission denied: '' @ [CHR 0x27] @ ''src/bad.rs'' @ [CHR 0x27])
   \<and> find_rust_files ex_tree = [ex_b, ex_bad, ex_a]
   \<and> stderr (generate_report ex_tree) = []
   \<and> take 2 (stdout (generate_report ex_tree)) =
       [''Analyzing 3 Rust files...'',
        ''Error reading src/bad.rs: [Errno 13] Permission denied: '' @ [CHR 0x27] @ ''src/bad.rs''
          @ [CHR 0x27]]"
  by (simp add: eval_defs generate_fix_script_def str_nat.simps digit_char_def)

lemma group_insert_new:
  "i_file x \<notin> fst ` set d \<Longrightarrow> group_insert x d = d @ [(i_file x, [x])]"
  by (induction d) auto

lemma group_insert_last:
  "i_file x = p \<Longrightarrow> p \<notin> fst ` set d \<Longrightarrow> group_insert x (d @ [(p, ys)]) = d @ [(p, ys @ [x])]"
  by (induction d) auto

lemma group_loop_last:
  "\<forall>x \<in> set xs. i_file x = p \<Longrightarrow> p \<notin> fst ` set d \<Longrightarrow>
     group_loop xs (d @ [(p, ys)]) = d @ [(p, ys @ xs)]"
  by (induction xs arbitrary: ys) (simp_all add: group_insert_last)

lemma group_loop_one_file:
  assumes "\<forall>x \<in> set xs. i_file x = p" and "p \<notin> fst ` set d" and "xs \<noteq> []"
  shows "group_loop xs d = d @ [(p, xs)]"
proof -
  obtain x xs' where xs: "xs = x # xs'" using assms(3) by (cases xs) auto
  have "group_loop xs d = group_loop xs' (d @ [(p, [x])])"
    using assms(1,2) by (simp add: xs group_insert_new)
  also have "\<dots> = d @ [(p, [x] @ xs')]"
    using assms(1,2) by (intro group_loop_last) (simp_all add: xs)
  finally show ?thesis by (simp add: xs)
qed

lemma group_loop_append: "group_loop (xs @ ys) d = group_loop ys (group_loop xs d)"
  by (induction xs arbitrary: d) simp_all

lemma group_loop_files:
  assumes "\<And>f x. x \<in> set (g f) \<Longrightarrow> i_file x = path f"
    and "distinct (map path fs)" and "path ` set fs \<inter> fst ` set d = {}"
  shows "group_loop (concat (map g fs)) d =
           d @ map (\<lambda>f. (path f, g f)) (filter (\<lambda>f. g f \<noteq> []) fs)"
  using assms(2,3)
proof (induction fs arbitrary: d)
  case Nil
  then show ?case by simp
next
  case (Cons f fs)
  show ?case
  proof (cases "g f = []")
    case True
    moreover have "group_loop (concat (map g fs)) d =
           d @ map (\<lambda>f. (path f, g f)) (filter (\<lambda>f. g f \<noteq> []) fs)"
      using Cons.prems by (intro Cons.IH) auto
    ultimately show ?thesis by simp
  next
    case False
    have one: "group_loop (g f) d = d @ [(path f, g f)]"
      using Cons.prems False assms(1) by (intro group_loop_one_file) auto
    have "group_loop (concat (map g fs)) (d @ [(path f, g f)]) =
           (d @ [(path f, g f)]) @ map (\<lambda>f. (path f, g f)) (filter (\<lambda>f. g f \<noteq> []) fs)"
      using Cons.prems by (intro Cons.IH) auto
    then show ?thesis using False by (simp add: group_loop_append one)
  qed
qed

lemma group_insert_count:
  "length (filter P (concat (map snd (group_insert x d)))) =
     length (filter P (concat (map snd d))) + length (filter P [x])"
  by (induction d) auto

lemma group_loop_count:
  "length (filter P (concat (map snd (group_loop xs d)))) =
     length (filter P (concat (map snd d))) + length (filter P xs)"
  by (induction xs arbitrary: d) (simp_all add: group_insert_count)

lemma all_issues_run_audit:
  "all_issues (run_audit fs) =
     concat (map (\<lambda>f. generate_fix_suggestions (path f) (fst (analyze_file f))) fs)"
  by (simp add: run_audit_def report_loop_fields)

lemma kind_count_concat:
  "length (filter (\<lambda>i. i_type i = k)
     (concat (map (\<lambda>f. generate_fix_suggestions (path f) (fst (analyze_file f))) fs))) =
   sum_list (map (\<lambda>f. length (lookup (fst (analyze_file f)) k)) fs)"
  by (induction fs) (simp_all add: generate_fix_suggestions_count)

lemma grouped_kind_count:
  "length (filter (\<lambda>i. i_type i = k) (concat (map snd (group_by_file (all_issues (run_audit fs)))))) =
   sum_list (map (\<lambda>f. length (lookup (fst (analyze_file f)) k)) fs)"
  by (simp add: group_by_file_def group_loop_count all_issues_run_audit kind_count_concat)

lemma analyze_lines_sorted:
  "sorted_wrt (<) (map fst (lookup (found (analyze_lines lns)) k))"
  using analyze_loop_lookup [of 0 lns "\<lparr>in_test_block = False, found = no_issues\<rparr>" k]
  by (cases k) (auto simp: analyze_lines_def lookup_def no_issues_def)

lemma analyze_lines_occ:
  assumes "occ \<in> set (lookup (found (analyze_lines lns)) k)"
  shows "0 < fst occ \<and> fst occ \<le> length lns \<and> snd occ = strip (lns ! (fst occ - 1))"
proof -
  let ?init = "\<lparr>in_test_block = False, found = no_issues\<rparr>"
  have init: "lookup (found ?init) k = []" by (cases k) (simp_all add: lookup_def no_issues_def)
  obtain ext where ext: "lookup (found (analyze_loop 0 lns ?init)) k = lookup (found ?init) k @ ext"
    "\<forall>occ \<in> set ext. 0 < fst occ \<and> fst occ \<le> 0 + length lns"
    using analyze_loop_lookup [of 0 lns ?init k] by blast
  from assms ext init have b: "0 < fst occ" "fst occ \<le> length lns"
    by (auto simp: analyze_lines_def)
  define j where "j = fst occ - 1"
  have j: "j < length lns" "fst occ = 0 + j + 1" using b by (simp_all add: j_def)
  have "occ \<in> set (filter (\<lambda>o'. fst o' = 0 + j + 1) (lookup (found (analyze_loop 0 lns ?init)) k))"
    using assms j(2) by (simp add: analyze_lines_def)
  then have "occ = (0 + j + 1, strip (lns ! j))"
    unfolding analyze_loop_at [OF j(1)] init by (simp split: if_splits)
  then have "snd occ = strip (lns ! j)" by (cases occ) simp
  then have "snd occ = strip (lns ! (fst occ - 1))" by (simp only: j_def)
  with b show ?thesis by simp
qed

lemma analyze_file_sorted:
  "sorted_wrt (<) (map fst (lookup (fst (analyze_file f)) k))"
proof (cases "content f")
  case (Inl e)
  then show ?thesis by (cases k) (simp_all add: analyze_file_def lookup_def no_issues_def)
next
  case (Inr lns)
  then show ?thesis using analyze_lines_sorted [of lns k] by (simp add: analyze_file_def)
qed

lemma sorted_sections:
  assumes "distinct (map path fs)"
  shows "group_by_file (all_issues (run_audit fs)) =
           map (\<lambda>f. (path f, generate_fix_suggestions (path f) (fst (analyze_file f))))
               (filter (\<lambda>f. any_issues (fst (analyze_file f))) fs)"
proof -
  have "group_loop (concat (map (\<lambda>f. generate_fix_suggestions (path f) (fst (analyze_file f))) fs)) [] =
          [] @ map (\<lambda>f. (path f, generate_fix_suggestions (path f) (fst (analyze_file f))))
                 (filter (\<lambda>f. generate_fix_suggestions (path f) (fst (analyze_file f)) \<noteq> []) fs)"
    using assms by (intro group_loop_files) (auto dest: generate_fix_suggestions_file)
  then show ?thesis
    by (simp add: group_by_file_def all_issues_run_audit generate_fix_suggestions_empty)
qed

lemma insort_key_map_pair:
  "insort_key fst (path x, g x) (map (\<lambda>f. (path f, g f)) ys) =
     map (\<lambda>f. (path f, g f)) (insort_key path x ys)"
  by (induction ys) simp_all

lemma sort_key_map_pair:
  "sort_key fst (map (\<lambda>f. (path f, g f)) xs) = map (\<lambda>f. (path f, g f)) (sort_key path xs)"
  by (induction xs) (simp_all add: insort_key_map_pair)

lemma distinct_map_sort_key: "distinct (map f (sort_key f xs)) = distinct (map f xs)"
  by (induction xs) (simp_all add: distinct_insort_key)

lemma detail_file_by_kind:
  "detail_file (p, generate_fix_suggestions p iss) =
     (CHR 0x0A # p @ '':'')
     # concat (map (\<lambda>occ. [''  Line '' @ str_nat (fst occ) @ '' (unwrap):'',
                             ''    Original: '' @ snd occ,
                             ''    Fix:      '' @ suggest_unwrap_fix (snd occ)]) (unwrap iss))
     @ concat (map (\<lambda>occ. [''  Line '' @ str_nat (fst occ) @ '' (expect):'',
                             ''    Original: '' @ snd occ,
                             ''    Fix:      '' @ suggest_expect_fix (snd occ)]) (expect iss))
     @ concat (map (\<lambda>occ. [''  Line '' @ str_nat (fst occ) @ '' (panic):'',
                             ''    Original: '' @ snd occ,
                             ''    Fix:      '' @ suggest_panic_fix (snd occ)]) (panic iss))"
  by (simp add: detail_file_def generate_fix_suggestions_by_kind detail_issue_def make_finding_def
      suggest_def type_name_def o_def)

text \<open>
  Claim C1, as amended. When the walk meets no path twice, the standard output of a run
  is the progress and error lines, the summary, the two heading lines of the detailed
  report, one section for each discovered file with at least one Finding, and the two
  closing lines. The sections stand in ascending order of the file's path, each path
  once. A section is the line of the path, then three lines for each unwrap Finding,
  then three lines for each expect Finding, then three lines for each panic Finding:
  the line number with the kind, the original text, and the suggestion computed from
  it. Within each kind the line numbers ascend strictly, and the text of a Finding is
  the trimmed line of that number.
\<close>

theorem detail_by_file_then_kind:
  assumes "distinct (map path (find_rust_files walk))"
  shows "(let rust_files = find_rust_files walk;
              a = run_audit rust_files;
              secs = sort_key path
                       (filter (\<lambda>f. unwrap (fst (analyze_file f)) \<noteq> []
                                  \<or> expect (fst (analyze_file f)) \<noteq> []
                                  \<or> panic (fst (analyze_file f)) \<noteq> []) rust_files);
              section = (\<lambda>f.
                (CHR 0x0A # path f @ '':'')
                # concat (map (\<lambda>occ. [''  Line '' @ str_nat (fst occ) @ '' (unwrap):'',
                                        ''    Original: '' @ snd occ,
                                        ''    Fix:      '' @ suggest_unwrap_fix (snd occ)])
                           (unwrap (fst (analyze_file f))))
                @ concat (map (\<lambda>occ. [''  Line '' @ str_nat (fst occ) @ '' (expect):'',
                                        ''    Original: '' @ snd occ,
                                        ''    Fix:      '' @ suggest_expect_fix (snd occ)])
                           (expect (fst (analyze_file f))))
                @ concat (map (\<lambda>occ. [''  Line '' @ str_nat (fst occ) @ '' (panic):'',
                                        ''    Original: '' @ snd occ,
                                        ''    Fix:      '' @ suggest_panic_fix (snd occ)])
                           (panic (fst (analyze_file f)))))
          in stdout (generate_report walk) =
               printed a @ summary_lines a
               @ [CHR 0x0A # ''DETAILED FIXES NEEDED:'', replicate 80 (CHR ''-'')]
               @ concat (map section secs)
               @ [CHR 0x0A # ''Fix script generated: apply_unwrap_fixes.sh'',
                  ''Review and edit the script before running!'']
           \<and> sorted (map path secs) \<and> distinct (map path secs)
           \<and> set secs = {f \<in> set rust_files. unwrap (fst (analyze_file f)) \<noteq> []
                                               \<or> expect (fst (analyze_file f)) \<noteq> []
                                               \<or> panic (fst (analyze_file f)) \<noteq> []})
       \<and> (\<forall>f. sorted_wrt (<) (map fst (unwrap (fst (analyze_file f))))
              \<and> sorted_wrt (<) (map fst (expect (fst (analyze_file f))))
              \<and> sorted_wrt (<) (map fst (panic (fst (analyze_file f)))))
       \<and> (\<forall>f lns k occ. content f = Inr lns \<longrightarrow> occ \<in> set (lookup (fst (analyze_file f)) k) \<longrightarrow>
              0 < fst occ \<and> fst occ \<le> length lns \<and> snd occ = strip (lns ! (fst occ - 1)))"
proof -
  let ?rf = "find_rust_files walk"
  let ?any = "\<lambda>f. unwrap (fst (analyze_file f)) \<noteq> [] \<or> expect (fst (analyze_file f)) \<noteq> []
                \<or> panic (fst (analyze_file f)) \<noteq> []"
  let ?secs = "sort_key path (filter ?any ?rf)"
  let ?sug = "\<lambda>f. generate_fix_suggestions (path f) (fst (analyze_file f))"
  have any: "(\<lambda>f. any_issues (fst (analyze_file f))) = ?any"
    by (simp add: any_issues_def)
  have grp: "group_by_file (all_issues (run_audit ?rf)) =
               map (\<lambda>f. (path f, ?sug f)) (filter ?any ?rf)"
    using sorted_sections [OF assms] unfolding any .
  have srt: "sorted_items (group_by_file (all_issues (run_audit ?rf))) =
               map (\<lambda>f. (path f, ?sug f)) ?secs"
    unfolding grp sorted_items_def by (rule sort_key_map_pair)
  have det: "detail_lines (group_by_file (all_issues (run_audit ?rf))) =
               [CHR 0x0A # ''DETAILED FIXES NEEDED:'', replicate 80 (CHR ''-'')]
               @ concat (map (\<lambda>f. detail_file (path f, ?sug f)) ?secs)"
    unfolding detail_lines_def srt by (simp add: o_def)
  have out: "stdout (generate_report walk) =
               printed (run_audit ?rf) @ summary_lines (run_audit ?rf)
               @ detail_lines (group_by_file (all_issues (run_audit ?rf)))
               @ [CHR 0x0A # ''Fix script generated: apply_unwrap_fixes.sh'',
                  ''Review and edit the script before running!'']"
    by (simp add: generate_report_def Let_def generate_fix_script_def)
  have 1: "stdout (generate_report walk) =
               printed (run_audit ?rf) @ summary_lines (run_audit ?rf)
               @ [CHR 0x0A # ''DETAILED FIXES NEEDED:'', replicate 80 (CHR ''-'')]
               @ concat (map (\<lambda>f. detail_file (path f, ?sug f)) ?secs)
               @ [CHR 0x0A # ''Fix script generated: apply_unwrap_fixes.sh'',
                  ''Review and edit the script before running!'']"
    unfolding out det by simp
  have 2: "sorted (map path ?secs)" by (rule sorted_sort_key)
  have 3: "distinct (map path ?secs)"
    using assms by (simp add: distinct_map_sort_key distinct_map_filter)
  have 4: "set ?secs = {f \<in> set ?rf. ?any f}" by auto
  have 5: "sorted_wrt (<) (map fst (unwrap (fst (analyze_file f))))
              \<and> sorted_wrt (<) (map fst (expect (fst (analyze_file f))))
              \<and> sorted_wrt (<) (map fst (panic (fst (analyze_file f))))" for f
    using analyze_file_sorted [of f Unwrap] analyze_file_sorted [of f Expect]
      analyze_file_sorted [of f Panic] by (simp add: lookup_def)
  have 6: "0 < fst occ \<and> fst occ \<le> length lns \<and> snd occ = strip (lns ! (fst occ - 1))"
    if "content f = Inr lns" "occ \<in> set (lookup (fst (analyze_file f)) k)" for f lns k occ
    using that analyze_lines_occ [of occ lns k] by (simp add: analyze_file_def)
  show ?thesis
    unfolding Let_def using 1 [unfolded detail_file_by_kind] 2 3 4 5 6 by (intro conjI) blast+
qed

text \<open>
  In the example tree \<^verbatim>\<open>src/b.rs\<close> is met first and printed second; the twelve lines
  before the sections are the progress line, the error line, the summary and the
  heading.
\<close>

theorem detail_by_file_then_kind_witness:
  \<open>distinct (map path (find_rust_files ex_tree))
   \<and> drop 12 (stdout (generate_report ex_tree)) =
       [CHR 0x0A # ''src/a.rs:'',
        ''  Line 1 (expect):'',
        ''    Original: let v = x.expect("must exist");'',
        ''    Fix:      let v = x.ok_or_else(|| ValidationError::InvalidInput("must exist".to_string()))?;'',
        CHR 0x0A # ''src/b.rs:'',
        ''  Line 2 (unwrap):'',
        ''    Original: let n = s.parse().unwrap();'',
        ''    Fix:      let n = s.parse().map_err(|e| ValidationError::ParseError(e.to_string()))?;'',
        ''  Line 1 (panic):'',
        ''    Original: panic!(1);'',
        ''    Fix:      return Err(SupernovaError::InternalError("Unexpected error".to_string()));'',
        CHR 0x0A # ''Fix script generated: apply_unwrap_fixes.sh'',
        ''Review and edit the script before running!'']\<close>
proof -
  have h: "distinct (map path (find_rust_files ex_tree))"
    by (simp add: ex_tree_def ex_b_def ex_bad_def ex_a_def ex_t_def find_rust_files_def
        rglob_rs_def suffix_def)
  note t = detail_by_file_then_kind [OF h, unfolded Let_def, THEN conjunct1, THEN conjunct1]
  have \<open>drop 12 (stdout (generate_report ex_tree)) =
       [CHR 0x0A # ''src/a.rs:'',
        ''  Line 1 (expect):'',
        ''    Original: let v = x.expect("must exist");'',
        ''    Fix:      let v = x.ok_or_else(|| ValidationError::InvalidInput("must exist".to_string()))?;'',
        CHR 0x0A # ''src/b.rs:'',
        ''  Line 2 (unwrap):'',
        ''    Original: let n = s.parse().unwrap();'',
        ''    Fix:      let n = s.parse().map_err(|e| ValidationError::ParseError(e.to_string()))?;'',
        ''  Line 1 (panic):'',
        ''    Original: panic!(1);'',
        ''    Fix:      return Err(SupernovaError::InternalError("Unexpected error".to_string()));'',
        CHR 0x0A # ''Fix script generated: apply_unwrap_fixes.sh'',
        ''Review and edit the script before running!'']\<close>
    by (subst t) (simp add: eval_defs summary_lines_def str_nat.simps digit_char_def)
  with h show ?thesis by (intro conjI)
qed

text \<open>
  Claim C1 as stated fails on the example tree: in \<^verbatim>\<open>src/b.rs\<close> the abort is on
  line 1 and the unwrap on line 2, and the section of the file prints line 2 before
  line 1.
\<close>

theorem detail_not_in_line_order_counterexample:
  "find_rust_files ex_tree = [ex_b, ex_bad, ex_a]
   \<and> content ex_b =
       Inr [''    panic!(1);'' @ [CHR 0x0A], ''    let n = s.parse().unwrap();'' @ [CHR 0x0A]]
   \<and> map (\<lambda>i. (i_line i, i_type i))
       (snd (sorted_items (group_by_file (all_issues (run_audit (find_rust_files ex_tree)))) ! 1)) =
     [(2, Unwrap), (1, Panic)]
   \<and> filter (prefix ''  Line '') (drop 12 (stdout (generate_report ex_tree))) =
     [''  Line 1 (expect):'', ''  Line 2 (unwrap):'', ''  Line 1 (panic):'']"
  by (simp add: eval_defs generate_fix_script_def summary_lines_def detail_lines_def
      detail_file_def detail_issue_def type_name_def str_nat.simps digit_char_def)

lemma run_audit_totals:
  "total_unwraps (run_audit fs) = sum_list (map (\<lambda>f. length (unwrap (fst (analyze_file f)))) fs)"
  "total_expects (run_audit fs) = sum_list (map (\<lambda>f. length (expect (fst (analyze_file f)))) fs)"
  "total_panics (run_audit fs) = sum_list (map (\<lambda>f. length (panic (fst (analyze_file f)))) fs)"
  by (simp_all add: run_audit_def report_loop_fields)

text \<open>
  Claim C3. For every tree, each total of the run is the sum over the discovered files
  of the length of that kind's list in the file's report, and it is the number of
  Findings of that kind in the grouped structure that is printed and handed to the
  script emitter. The summary prints these three totals and their sum, and the script
  is its header followed by the entries of the grouped Findings. For the empty tree
  all four numbers printed are 0 and the script is its header alone.
\<close>

theorem totals_match_findings:
  "(let a = run_audit (find_rust_files walk);
        reports = map (\<lambda>f. fst (analyze_file f)) (find_rust_files walk);
        grouped = concat (map snd (group_by_file (all_issues a)))
    in total_unwraps a = sum_list (map (\<lambda>r. length (unwrap r)) reports)
     \<and> total_expects a = sum_list (map (\<lambda>r. length (expect r)) reports)
     \<and> total_panics a = sum_list (map (\<lambda>r. length (panic r)) reports)
     \<and> total_unwraps a = length (filter (\<lambda>i. i_type i = Unwrap) grouped)
     \<and> total_expects a = length (filter (\<lambda>i. i_type i = Expect) grouped)
     \<and> total_panics a = length (filter (\<lambda>i. i_type i = Panic) grouped)
     \<and> (\<exists>before after. stdout (generate_report walk) =
           before @
           [''Total unwrap() calls: '' @ str_nat (total_unwraps a),
            ''Total expect() calls: '' @ str_nat (total_expects a),
            ''Total panic! calls: '' @ str_nat (total_panics a),
            ''TOTAL ISSUES: '' @ str_nat (total_unwraps a + total_expects a + total_panics a)]
           @ after)
     \<and> script (generate_report walk) =
           script_header @ concat (map script_file (group_by_file (all_issues a))))
   \<and> stdout (generate_report []) =
       [''Analyzing 0 Rust files...'',
        CHR 0x0A # replicate 80 (CHR ''=''),
        ''UNWRAP/PANIC AUDIT REPORT'',
        replicate 80 (CHR ''=''),
        ''Total unwrap() calls: 0'',
        ''Total expect() calls: 0'',
        ''Total panic! calls: 0'',
        ''TOTAL ISSUES: 0'',
        replicate 80 (CHR ''=''),
        CHR 0x0A # ''DETAILED FIXES NEEDED:'',
        replicate 80 (CHR ''-''),
        CHR 0x0A # ''Fix script generated: apply_unwrap_fixes.sh'',
        ''Review and edit the script before running!'']
   \<and> script (generate_report []) = script_header"
proof -
  define a where "a = run_audit (find_rust_files walk)"
  have g: "length (filter (\<lambda>i. i_type i = k) (concat (map snd (group_by_file (all_issues a))))) =
             sum_list (map (\<lambda>f. length (lookup (fst (analyze_file f)) k)) (find_rust_files walk))" for k
    unfolding a_def by (rule grouped_kind_count)
  have t: "total_unwraps a = sum_list (map (\<lambda>f. length (unwrap (fst (analyze_file f)))) (find_rust_files walk))"
    "total_expects a = sum_list (map (\<lambda>f. length (expect (fst (analyze_file f)))) (find_rust_files walk))"
    "total_panics a = sum_list (map (\<lambda>f. length (panic (fst (analyze_file f)))) (find_rust_files walk))"
    unfolding a_def by (rule run_audit_totals)+
  have out: "stdout (generate_report walk) =
           (printed a @ [CHR 0x0A # replicate 80 (CHR ''=''), ''UNWRAP/PANIC AUDIT REPORT'',
              replicate 80 (CHR ''='')]) @
           [''Total unwrap() calls: '' @ str_nat (total_unwraps a),
            ''Total expect() calls: '' @ str_nat (total_expects a),
            ''Total panic! calls: '' @ str_nat (total_panics a),
            ''TOTAL ISSUES: '' @ str_nat (total_unwraps a + total_expects a + total_panics a)]
           @ (replicate 80 (CHR ''='') # detail_lines (group_by_file (all_issues a))
               @ snd (generate_fix_script (group_by_file (all_issues a))))"
    by (simp add: generate_report_def a_def Let_def summary_lines_def split: prod.splits)
  have scr: "script (generate_report walk) =
           script_header @ concat (map script_file (group_by_file (all_issues a)))"
    by (simp add: generate_report_def a_def Let_def generate_fix_script_def)
  have e1: "stdout (generate_report []) =
       [''Analyzing 0 Rust files...'',
        CHR 0x0A # replicate 80 (CHR ''=''),
        ''UNWRAP/PANIC AUDIT REPORT'',
        replicate 80 (CHR ''=''),
        ''Total unwrap() calls: 0'',
        ''Total expect() calls: 0'',
        ''Total panic! calls: 0'',
        ''TOTAL ISSUES: 0'',
        replicate 80 (CHR ''=''),
        CHR 0x0A # ''DETAILED FIXES NEEDED:'',
        replicate 80 (CHR ''-''),
        CHR 0x0A # ''Fix script generated: apply_unwrap_fixes.sh'',
        ''Review and edit the script before running!'']"
    by (simp add: generate_report_def find_rust_files_def rglob_rs_def run_audit_def Let_def
        summary_lines_def detail_lines_def group_by_file_def sorted_items_def
        generate_fix_script_def str_nat.simps digit_char_def)
  have e2: "script (generate_report []) = script_header"
    by (simp add: generate_report_def find_rust_files_def rglob_rs_def run_audit_def Let_def
        group_by_file_def generate_fix_script_def)
  have m1: "total_unwraps a = sum_list (map (\<lambda>r. length (unwrap r)) (map (\<lambda>f. fst (analyze_file f)) (find_rust_files walk)))"
    and m2: "total_expects a = sum_list (map (\<lambda>r. length (expect r)) (map (\<lambda>f. fst (analyze_file f)) (find_rust_files walk)))"
    and m3: "total_panics a = sum_list (map (\<lambda>r. length (panic r)) (map (\<lambda>f. fst (analyze_file f)) (find_rust_files walk)))"
    using t by (simp_all add: o_def)
  have m4: "total_unwraps a = length (filter (\<lambda>i. i_type i = Unwrap) (concat (map snd (group_by_file (all_issues a)))))"
    and m5: "total_expects a = length (filter (\<lambda>i. i_type i = Expect) (concat (map snd (group_by_file (all_issues a)))))"
    and m6: "total_panics a = length (filter (\<lambda>i. i_type i = Panic) (concat (map snd (group_by_file (all_issues a)))))"
    using t g [of Unwrap] g [of Expect] g [of Panic] by (simp_all add: lookup_def)
  have ex: "\<exists>before after. stdout (generate_report walk) =
           before @
           [''Total unwrap() calls: '' @ str_nat (total_unwraps a),
            ''Total expect() calls: '' @ str_nat (total_expects a),
            ''Total panic! calls: '' @ str_nat (total_panics a),
            ''TOTAL ISSUES: '' @ str_nat (total_unwraps a + total_expects a + total_panics a)]
           @ after"
    using out by blast
  show ?thesis
    unfolding Let_def a_def [symmetric] by (intro conjI) (fact m1 m2 m3 m4 m5 m6 ex scr e1 e2)+
qed

text \<open>The example tree has one Finding of each kind.\<close>

theorem totals_match_findings_witness:
  "total_unwraps (run_audit (find_rust_files ex_tree)) = 1
   \<and> total_expects (run_audit (find_rust_files ex_tree)) = 1
   \<and> total_panics (run_audit (find_rust_files ex_tree)) = 1
   \<and> length (filter (\<lambda>i. i_type i = Unwrap)
        (concat (map snd (group_by_file (all_issues (run_audit (find_rust_files ex_tree))))))) = 1"
proof -
  note t = totals_match_findings [of ex_tree, unfolded Let_def, THEN conjunct1]
  have e: "sum_list (map (\<lambda>r. length (unwrap r))
             (map (\<lambda>f. fst (analyze_file f)) (find_rust_files ex_tree))) = 1"
    "sum_list (map (\<lambda>r. length (expect r))
             (map (\<lambda>f. fst (analyze_file f)) (find_rust_files ex_tree))) = 1"
    "sum_list (map (\<lambda>r. length (panic r))
             (map (\<lambda>f. fst (analyze_file f)) (find_rust_files ex_tree))) = 1"
    by (simp_all add: eval_defs)
  have u: "total_unwraps (run_audit (find_rust_files ex_tree)) = 1"
    using t e(1) by (simp only:)
  have x: "total_expects (run_audit (find_rust_files ex_tree)) = 1"
    using t e(2) by (simp only:)
  have p: "total_panics (run_audit (find_rust_files ex_tree)) = 1"
    using t e(3) by (simp only:)
  have g: "length (filter (\<lambda>i. i_type i = Unwrap)
        (concat (map snd (group_by_file (all_issues (run_audit (find_rust_files ex_tree))))))) = 1"
    using t u by (simp only:)
  from u x p g show ?thesis by (intro conjI)
qed

subsection \<open>The companion script\<close>

text \<open>
  Claim C9. Each Finding writes two strings that start with the comment character: its
  line number, then the \<^verbatim>\<open>sed\<close> command for an unwrap and the marker
  \<^verbatim>\<open># Manual fix needed\<close> for an expect or a panic. The path is written into the
  \<^verbatim>\<open>sed\<close> command as it is. For the file \<^verbatim>\<open>x\<close>, line feed, \<^verbatim>\<open>y.rs\<close> under
  \<^verbatim>\<open>src\<close>, which is discovered, the command written for its unwrap Finding spans
  two lines, and the second line of it, \<^verbatim>\<open>y.rs\<close>, is a line of the script that does
  not start with the comment character.
\<close>

theorem script_line_enabled_by_path:
  "find_rust_files [ex_nl] = [ex_nl]
   \<and> script (generate_report [ex_nl]) =
       script_header @
       [CHR 0x0A # ''# Fixes for src/x'' @ [CHR 0x0A] @ ''y.rs'' @ [CHR 0x0A],
        ''# Line 1: Replace unwrap()'' @ [CHR 0x0A],
        sed_command (''src/x'' @ [CHR 0x0A] @ ''y.rs'')]
   \<and> lines_of (sed_command (''src/x'' @ [CHR 0x0A] @ ''y.rs'')) =
       [''# sed -i '' @ [CHR 0x27, CHR 0x27] @ '' '' @ [CHR 0x27] @ ''s/'' @ [CHR 0x5C]
          @ ''.unwrap()/'' @ [CHR 0x5C] @ ''?/g'' @ [CHR 0x27] @ '' src/x'',
        ''y.rs'', []]
   \<and> ''y.rs'' \<in> set (lines_of (concat (script (generate_report [ex_nl]))))"
  by (simp add: eval_defs generate_fix_script_def script_file_def script_issue_def
      script_header_def sed_command_def str_nat.simps digit_char_def)

text \<open>
  When no path holds a line feed, every string written is a disabled record, and every
  line of the script is empty or starts with the comment character.
\<close>

lemma lines_of_no_line_feed: "CHR 0x0A \<notin> set s \<Longrightarrow> lines_of s = [s]"
  by (induction s) auto

lemma lines_of_line_feed: "lines_of (a @ CHR 0x0A # b) = lines_of a @ lines_of b"
proof (induction a)
  case Nil
  show ?case by simp
next
  case (Cons c a)
  have "lines_of a \<noteq> []" by (cases a) (auto split: list.splits)
  then obtain l ls where "lines_of a = l # ls" by (cases "lines_of a") auto
  with Cons show ?case by (auto split: list.splits)
qed

lemma disabled_records_concat:
  assumes "\<forall>w \<in> set ws. disabled_record w"
  shows "\<forall>l \<in> set (lines_of (concat ws)). commented l"
  using assms
proof (induction ws)
  case Nil
  show ?case by (simp add: commented_def)
next
  case (Cons w ws)
  then obtain body where w: "w = body @ [CHR 0x0A]" "\<forall>l \<in> set (lines_of body). commented l"
    by (auto simp: disabled_record_def)
  have "lines_of (concat (w # ws)) = lines_of body @ lines_of (concat ws)"
    by (simp add: w(1) lines_of_line_feed)
  with w(2) Cons show ?case by auto
qed

lemma disabled_record_plain:
  assumes "CHR 0x0A \<notin> set body" and "hd body = CHR ''#''"
  shows "disabled_record (body @ [CHR 0x0A])"
  unfolding disabled_record_def using assms
  by (intro exI [of _ body]) (simp add: lines_of_no_line_feed commented_def)

lemma disabled_record_after_blank:
  assumes "CHR 0x0A \<notin> set body" and "hd body = CHR ''#''"
  shows "disabled_record (CHR 0x0A # body @ [CHR 0x0A])"
  unfolding disabled_record_def using assms
  by (intro exI [of _ "CHR 0x0A # body"]) (simp add: lines_of_no_line_feed commented_def)

lemma disabled_record_before_blank:
  assumes "CHR 0x0A \<notin> set body" and "hd body = CHR ''#''"
  shows "disabled_record (body @ [CHR 0x0A, CHR 0x0A])"
proof -
  have "lines_of (body @ [CHR 0x0A]) = [body, []]"
    using assms(1) lines_of_line_feed [of body "[]"] by (simp add: lines_of_no_line_feed)
  then have "\<forall>l \<in> set (lines_of (body @ [CHR 0x0A])). commented l"
    using assms(2) by (simp add: commented_def)
  moreover have "body @ [CHR 0x0A, CHR 0x0A] = (body @ [CHR 0x0A]) @ [CHR 0x0A]" by simp
  ultimately show ?thesis unfolding disabled_record_def by blast
qed

lemma str_nat_digits: "set (str_nat n) \<subseteq> set ''0123456789''"
proof (induction n rule: str_nat.induct)
  case (1 n)
  have d: "digit_char k \<in> set ''0123456789''" if "k < 10" for k
    unfolding digit_char_def using that by (intro nth_mem) simp
  show ?case
  proof (cases "n < 10")
    case True
    then show ?thesis using d [of n] by (subst str_nat.simps) simp
  next
    case False
    then show ?thesis using 1 d [of "n mod 10"] by (subst str_nat.simps) simp
  qed
qed

lemma str_nat_no_line_feed: "CHR 0x0A \<notin> set (str_nat n)"
  using str_nat_digits [of n] by auto

lemma script_header_disabled: "\<forall>w \<in> set script_header. disabled_record w"
proof -
  have "disabled_record (''#!/bin/bash'' @ [CHR 0x0A])"
    by (rule disabled_record_plain) simp_all
  moreover have "disabled_record (''# Script to apply unwrap fixes'' @ [CHR 0x0A])"
    by (rule disabled_record_plain) simp_all
  moreover have "disabled_record (''# Review each change before running!'' @ [CHR 0x0A, CHR 0x0A])"
    by (rule disabled_record_before_blank) simp_all
  ultimately show ?thesis by (simp add: script_header_def)
qed

lemma script_issue_disabled:
  assumes "CHR 0x0A \<notin> set file"
  shows "\<forall>w \<in> set (script_issue file issue). disabled_record w"
proof -
  have line: "disabled_record ((''# Line '' @ str_nat (i_line issue) @ what) @ [CHR 0x0A])"
    if "CHR 0x0A \<notin> set what" for what
    using that by (intro disabled_record_plain) (simp_all add: str_nat_no_line_feed)
  have manual: "disabled_record (''# Manual fix needed'' @ [CHR 0x0A])"
    by (rule disabled_record_plain) simp_all
  have sed: "disabled_record
      ((''# sed -i '' @ [CHR 0x27, CHR 0x27] @ '' '' @ [CHR 0x27] @ ''s/'' @ [CHR 0x5C]
          @ ''.unwrap()/'' @ [CHR 0x5C] @ ''?/g'' @ [CHR 0x27] @ '' '' @ file) @ [CHR 0x0A])"
    using assms by (intro disabled_record_plain) simp_all
  show ?thesis
    using line [of "'': Replace unwrap()''"] line [of "'': Replace expect()''"]
      line [of "'': Replace panic!''"] manual sed
    by (cases "i_type issue") (simp_all add: script_issue_def sed_command_def)
qed

lemma script_file_disabled:
  assumes "CHR 0x0A \<notin> set (fst item)"
  shows "\<forall>w \<in> set (script_file item). disabled_record w"
proof -
  have "disabled_record (CHR 0x0A # (''# Fixes for '' @ fst item) @ [CHR 0x0A])"
    using assms by (intro disabled_record_after_blank) simp_all
  then show ?thesis
    using script_issue_disabled [OF assms] by (auto simp: script_file_def)
qed

lemma script_lines_commented:
  assumes "\<forall>item \<in> set d. CHR 0x0A \<notin> set (fst item)"
  shows "\<forall>l \<in> set (lines_of (concat (fst (generate_fix_script d)))). l = [] \<or> hd l = CHR ''#''"
proof -
  have "\<forall>w \<in> set (fst (generate_fix_script d)). disabled_record w"
    using assms script_header_disabled script_file_disabled
    by (auto simp: generate_fix_script_def)
  from disabled_records_concat [OF this] show ?thesis by (simp add: commented_def)
qed

subsection \<open>The text of a Finding\<close>

text \<open>
  Trimming removes white space only, and no signature starts or ends with white space:
  the trimmed text kept in a Finding still matches the signature that produced it, so
  the properties of the suggestions above apply to every Finding.
\<close>

lemma contains_str_rev: "contains_str (rev pat) (rev s) \<longleftrightarrow> contains_str pat s"
proof -
  have "(\<exists>pre post. rev s = pre @ rev pat @ post) \<longleftrightarrow> (\<exists>pre post. s = pre @ pat @ post)"
  proof
    assume "\<exists>pre post. rev s = pre @ rev pat @ post"
    then obtain pre post where "rev s = pre @ rev pat @ post" by blast
    then have "rev (rev s) = rev (pre @ rev pat @ post)" by simp
    then have "s = rev post @ pat @ rev pre" by simp
    then show "\<exists>pre post. s = pre @ pat @ post" by blast
  next
    assume "\<exists>pre post. s = pre @ pat @ post"
    then obtain pre post where "s = pre @ pat @ post" by blast
    then have "rev s = rev post @ rev pat @ rev pre" by simp
    then show "\<exists>pre post. rev s = pre @ rev pat @ post" by blast
  qed
  then show ?thesis by (simp add: contains_str_iff)
qed

lemma contains_str_dropWhile:
  assumes "pat \<noteq> []" and "\<not> isspace (hd pat)" and "contains_str pat s"
  shows "contains_str pat (dropWhile isspace s)"
  using assms(3)
proof (induction s)
  case Nil
  then show ?case by simp
next
  case (Cons c cs)
  show ?case
  proof (cases "isspace c")
    case True
    have "\<not> prefix pat (c # cs)"
      using assms(1,2) True by (cases pat) auto
    with Cons.prems have "contains_str pat cs" by simp
    with Cons.IH True show ?thesis by simp
  next
    case False
    with Cons.prems show ?thesis by simp
  qed
qed

lemma contains_str_strip:
  assumes "pat \<noteq> []" and "\<not> isspace (hd pat)" and "\<not> isspace (last pat)"
    and "contains_str pat s"
  shows "contains_str pat (strip s)"
proof -
  have "contains_str pat (dropWhile isspace s)"
    using assms(1,2,4) by (rule contains_str_dropWhile)
  then have "contains_str (rev pat) (rev (dropWhile isspace s))"
    by (simp add: contains_str_rev)
  moreover have "rev pat \<noteq> []" "\<not> isspace (hd (rev pat))"
    using assms(1,3) by (simp_all add: hd_rev)
  ultimately have "contains_str (rev pat) (dropWhile isspace (rev (dropWhile isspace s)))"
    by (intro contains_str_dropWhile)
  then have "contains_str (rev (rev pat)) (rev (dropWhile isspace (rev (dropWhile isspace s))))"
    by (simp only: contains_str_rev)
  then show ?thesis by (simp add: strip_def)
qed

lemma expect_pattern_iff:
  "expect_pattern s \<noteq> None \<longleftrightarrow> (\<exists>m. dquote \<notin> set m \<and> contains_str (expect_call m) s)"
proof
  assume "expect_pattern s \<noteq> None"
  then obtain m where "search_quoted ''.expect('' s = Some m"
    by (auto simp: expect_pattern_def)
  from search_quoted_Some [OF this] obtain pre rest where
    "s = pre @ rest" "match_quoted_at ''.expect('' rest = Some m" by blast
  moreover from match_quoted_at_Some [OF this(2)] obtain post where
    "rest = ''.expect('' @ [dquote] @ m @ [dquote, CHR '')''] @ post" "dquote \<notin> set m" by blast
  ultimately have "s = pre @ expect_call m @ post" "dquote \<notin> set m"
    by (simp_all add: expect_call_def)
  then show "\<exists>m. dquote \<notin> set m \<and> contains_str (expect_call m) s"
    unfolding contains_str_iff by blast
next
  assume "\<exists>m. dquote \<notin> set m \<and> contains_str (expect_call m) s"
  then obtain m pre post where m: "dquote \<notin> set m" "s = pre @ expect_call m @ post"
    unfolding contains_str_iff by blast
  then have "s = pre @ ''.expect('' @ [dquote] @ m @ [dquote, CHR '')''] @ post"
    by (simp add: expect_call_def)
  then have "search_quoted ''.expect('' s \<noteq> None"
    using search_quoted_None_no_literal [of "''.expect(''" s m pre post] m(1) by blast
  then show "expect_pattern s \<noteq> None" by (simp add: expect_pattern_def)
qed

lemma signature_strip:
  assumes "signature k ln"
  shows "signature k (strip ln)"
proof (cases k)
  case Unwrap
  with assms show ?thesis
    by (simp add: signature_def unwrap_pattern_def contains_str_strip isspace_def)
next
  case Panic
  with assms show ?thesis
    by (simp add: signature_def panic_pattern_def contains_str_strip isspace_def)
next
  case Expect
  with assms have "expect_pattern ln \<noteq> None" by (simp add: signature_def)
  then obtain m where m: "dquote \<notin> set m" "contains_str (expect_call m) ln"
    unfolding expect_pattern_iff by blast
  have "contains_str (expect_call m) (strip ln)"
    using m(2) by (intro contains_str_strip) (simp_all add: expect_call_def isspace_def)
  with m(1) have "expect_pattern (strip ln) \<noteq> None" unfolding expect_pattern_iff by blast
  with Expect show ?thesis by (simp add: signature_def)
qed

lemma finding_text_matches:
  assumes "occ \<in> set (lookup (found (analyze_lines lns)) k)"
  shows "signature k (snd occ)"
proof -
  let ?init = "\<lparr>in_test_block = False, found = no_issues\<rparr>"
  have init: "lookup (found ?init) k = []" by (cases k) (simp_all add: lookup_def no_issues_def)
  obtain ext where ext: "lookup (found (analyze_loop 0 lns ?init)) k = lookup (found ?init) k @ ext"
    "\<forall>occ \<in> set ext. 0 < fst occ \<and> fst occ \<le> 0 + length lns"
    using analyze_loop_lookup [of 0 lns ?init k] by blast
  from assms ext init have b: "0 < fst occ" "fst occ \<le> length lns"
    by (auto simp: analyze_lines_def)
  define j where "j = fst occ - 1"
  have j: "j < length lns" "fst occ = 0 + j + 1" using b by (simp_all add: j_def)
  have "occ \<in> set (filter (\<lambda>o'. fst o' = 0 + j + 1) (lookup (found (analyze_loop 0 lns ?init)) k))"
    using assms j(2) by (simp add: analyze_lines_def)
  then have "occ = (0 + j + 1, strip (lns ! j)) \<and> signature k (lns ! j)"
    unfolding analyze_loop_at [OF j(1)] init by (simp split: if_splits)
  then show ?thesis using signature_strip [of k "lns ! j"] by (cases occ) simp
qed

end
